theory Spec2Isabelle
  imports Complex_Main "HOL-Library.Word" "HOL-Library.Multiset" "HOL-Library.Log_Nat"
begin

section \<open>Orders (order.h, order.cpp)\<close>

text \<open>
  The class \<open>Order\<close> as a record, one field per data member. \<open>m_orderID\<close> is an
  \<open>unsigned long long\<close>, hence a 64-bit word. \<open>m_price\<close> is a \<open>float\<close>; prices are only
  ever compared, never computed with, so a price is represented by the rational number that
  the (finite, non-NaN) float denotes. \<open>m_time\<close> and \<open>m_amount\<close> are \<open>int\<close>: an integer
  from \<open>- 2 ^ 31\<close> to \<open>2 ^ 31 - 1\<close>. They are represented by mathematical integers, and
  every operation of the source that computes an \<open>int\<close> is followed by the reduction \<open>int32\<close>
  of its result into that range.
\<close>

record Order =
  m_ticker :: string
  m_orderID :: "64 word"
  m_isMarket :: bool
  m_isBuy :: bool
  m_price :: rat
  m_time :: int
  m_amount :: int

text \<open>
  The constructor takes the identifier as a \<open>long long\<close> and initialises the
  \<open>unsigned long long\<close> member with it: the value is reduced modulo \<open>2 ^ 64\<close>.
\<close>

definition Order :: "string \<Rightarrow> int \<Rightarrow> bool \<Rightarrow> bool \<Rightarrow> rat \<Rightarrow> int \<Rightarrow> int \<Rightarrow> Order" where
  "Order ticker orderID isMarket isBuy price time amount =
     \<lparr>m_ticker = ticker, m_orderID = word_of_int orderID, m_isMarket = isMarket,
      m_isBuy = isBuy, m_price = price, m_time = time, m_amount = amount\<rparr>"

definition checkIsBuy :: "Order \<Rightarrow> bool" where
  "checkIsBuy ord = m_isBuy ord"

text \<open>
  \<open>int getID() const { return m_orderID; }\<close>: the 64-bit member is converted to a 32-bit
  \<open>int\<close>, which keeps the low 32 bits and reads them as two's complement.
\<close>

definition getID :: "Order \<Rightarrow> int" where
  "getID ord = sint (ucast (m_orderID ord) :: 32 word)"

definition getPrice :: "Order \<Rightarrow> rat" where
  "getPrice ord = m_price ord"

definition getTime :: "Order \<Rightarrow> int" where
  "getTime ord = m_time ord"

definition getAmount :: "Order \<Rightarrow> int" where
  "getAmount ord = m_amount ord"

definition setAmount :: "int \<Rightarrow> Order \<Rightarrow> Order" where
  "setAmount newAmount ord = ord\<lparr>m_amount := newAmount\<rparr>"

subsection \<open>Arithmetic of the type int\<close>

text \<open>
  An addition or subtraction of \<open>int\<close> whose exact result is outside the range of the type
  is undefined in C++. The embedding gives it the result that an x86-64 build computes: the
  exact result reduced modulo \<open>2 ^ 32\<close> into the range (two's complement).
\<close>

definition int32 :: "int \<Rightarrow> int" where
  "int32 n = (n + 2 ^ 31) mod 2 ^ 32 - 2 ^ 31"

section \<open>The order book (orderbook.h)\<close>

record ProcessedOrder =
  buyID :: int
  sellID :: int
  fillAmount :: int

definition ProcessedOrder :: "int \<Rightarrow> int \<Rightarrow> int \<Rightarrow> ProcessedOrder" where
  "ProcessedOrder buyNum sellNum fillAmt = \<lparr>buyID = buyNum, sellID = sellNum, fillAmount = fillAmt\<rparr>"

text \<open>
  The comparators of the two priority queues. As for every \<open>std::priority_queue\<close>,
  \<open>comp a b\<close> says that \<open>a\<close> comes out after \<open>b\<close>.
\<close>

definition prioritizeMax :: "Order \<Rightarrow> Order \<Rightarrow> bool" where
  "prioritizeMax order1 order2 =
     (if getPrice order1 < getPrice order2 then True
      else if getPrice order1 > getPrice order2 then False
      else getTime order1 > getTime order2)"

definition prioritizeMin :: "Order \<Rightarrow> Order \<Rightarrow> bool" where
  "prioritizeMin order1 order2 =
     (if getPrice order1 > getPrice order2 then True
      else if getPrice order1 < getPrice order2 then False
      else getTime order1 > getTime order2)"

text \<open>
  \<open>std::priority_queue\<close> is library code: its contract is that \<open>top()\<close> is an element
  that the comparator puts after no other one. The queue is represented by the list of its
  elements in the order in which successive \<open>top()\<close>/\<open>pop()\<close> calls deliver them: \<open>top()\<close>
  is the head, \<open>pop()\<close> removes it, and \<open>push\<close> puts the new element in front of the first
  one that must come out after it. Among elements that the comparator does not separate
  the library leaves the order open; the representation delivers them in the order of
  their insertion.
\<close>

fun pq_push :: "('a \<Rightarrow> 'a \<Rightarrow> bool) \<Rightarrow> 'a \<Rightarrow> 'a list \<Rightarrow> 'a list" where
  "pq_push cmp x [] = [x]"
| "pq_push cmp x (y # ys) = (if cmp y x then x # y # ys else y # pq_push cmp x ys)"

text \<open>
  The data members of the class \<open>Orderbook\<close>. Its member \<open>m_ticker\<close> is named
  \<open>m_bookTicker\<close> here, apart from the member of that name of \<open>Order\<close>.
\<close>

record Orderbook =
  m_bookTicker :: string
  m_buyOrders :: "Order list"
  m_sellOrders :: "Order list"
  m_orderHistory :: "ProcessedOrder list"

text \<open>The constructor: both queues and the history start empty.\<close>

definition Orderbook :: "string \<Rightarrow> Orderbook" where
  "Orderbook ticker = \<lparr>m_bookTicker = ticker, m_buyOrders = [], m_sellOrders = [], m_orderHistory = []\<rparr>"

subsection \<open>addOrder\<close>

definition addOrder :: "Order \<Rightarrow> Orderbook \<Rightarrow> Orderbook" where
  "addOrder newOrder book =
     (if checkIsBuy newOrder
      then book\<lparr>m_buyOrders := pq_push prioritizeMax newOrder (m_buyOrders book)\<rparr>
      else book\<lparr>m_sellOrders := pq_push prioritizeMin newOrder (m_sellOrders book)\<rparr>)"

subsection \<open>matchOrdersFIFO\<close>

text \<open>
  The branch of the loop body taken when the two popped orders cross (lines 119 to 142):
  \<open>buys\<close> and \<open>sells\<close> are the queues after both \<open>pop()\<close> calls. The two
  differences are subtractions of \<open>int\<close>.
\<close>

definition fifoTrade :: "Order \<Rightarrow> Order \<Rightarrow> Orderbook \<Rightarrow> Orderbook" where
  "fifoTrade bestBuy bestSell book =
     (let buyAmount = getAmount bestBuy;
          sellAmount = getAmount bestSell
      in if buyAmount > sellAmount
         then (let bestBuy' = setAmount (int32 (buyAmount - sellAmount)) bestBuy;
                   amountFilled = sellAmount
               in book\<lparr>m_buyOrders := pq_push prioritizeMax bestBuy' (m_buyOrders book),
                        m_orderHistory := m_orderHistory book @
                          [ProcessedOrder (getID bestBuy') (getID bestSell) amountFilled]\<rparr>)
         else if buyAmount < sellAmount
         then (let bestSell' = setAmount (int32 (sellAmount - buyAmount)) bestSell;
                   amountFilled = buyAmount
               in book\<lparr>m_sellOrders := pq_push prioritizeMin bestSell' (m_sellOrders book),
                        m_orderHistory := m_orderHistory book @
                          [ProcessedOrder (getID bestBuy) (getID bestSell') amountFilled]\<rparr>)
         else (let amountFilled = buyAmount
               in book\<lparr>m_orderHistory := m_orderHistory book @
                          [ProcessedOrder (getID bestBuy) (getID bestSell) amountFilled]\<rparr>))"

lemma length_pq_push: "length (pq_push cmp x q) = Suc (length q)"
  by (induction q) auto

text \<open>
  The loop (lines 109 to 152). It runs while both queues are non-empty; the two \<open>top()\<close>
  and \<open>pop()\<close> calls take the heads off. The loop ends at the \<open>break\<close> of the branch that
  pushes both orders back.
\<close>

function matchOrdersFIFO :: "Orderbook \<Rightarrow> Orderbook" where
  "matchOrdersFIFO book =
     (case m_buyOrders book of
        [] \<Rightarrow> book
      | bestBuy # buys \<Rightarrow>
         (case m_sellOrders book of
            [] \<Rightarrow> book
          | bestSell # sells \<Rightarrow>
             if getPrice bestBuy \<ge> getPrice bestSell
             then matchOrdersFIFO
                    (fifoTrade bestBuy bestSell (book\<lparr>m_buyOrders := buys, m_sellOrders := sells\<rparr>))
             else book\<lparr>m_buyOrders := pq_push prioritizeMax bestBuy buys,
                       m_sellOrders := pq_push prioritizeMin bestSell sells\<rparr>))"
  by pat_completeness auto

termination
proof (relation "measure (\<lambda>book. length (m_buyOrders book) + length (m_sellOrders book))")
  show "wf (measure (\<lambda>book. length (m_buyOrders book) + length (m_sellOrders book)))"
    by simp
next
  fix book :: Orderbook and bestBuy buys bestSell sells
  assume "m_buyOrders book = bestBuy # buys" "m_sellOrders book = bestSell # sells"
  then show "(fifoTrade bestBuy bestSell (book\<lparr>m_buyOrders := buys, m_sellOrders := sells\<rparr>), book)
        \<in> measure (\<lambda>book. length (m_buyOrders book) + length (m_sellOrders book))"
    by (simp add: fifoTrade_def Let_def length_pq_push)
qed

subsection \<open>Single-precision arithmetic\<close>

text \<open>
  \<open>matchOrdersProRata\<close> computes each share in \<open>float\<close>. A finite float is a rational
  number, and each IEEE 754 operation returns the exact result rounded to the nearest
  number with a 24-bit significand, ties to the even significand. All values that occur
  (quotients and products of 32-bit integers) lie far inside the exponent range of
  binary32, so the rounding is modelled without exponent bounds.
\<close>

text \<open>
  \<open>f32_exponent a\<close> is the integer \<open>e\<close> with \<open>2 ^ e \<le> a < 2 ^ (e + 1)\<close>, for \<open>a > 0\<close>
  (\<open>bitlen n\<close> is the number of binary digits of \<open>n\<close>).
\<close>

definition f32_exponent :: "rat \<Rightarrow> int" where
  "f32_exponent a =
     (if 1 \<le> a then bitlen \<lfloor>a\<rfloor> - 1
      else - bitlen (\<lceil>1 / a\<rceil> - 1))"

definition round_half_even :: "rat \<Rightarrow> int" where
  "round_half_even m =
     (let f = \<lfloor>m\<rfloor>; r = m - of_int f
      in if r < 1 / 2 then f
         else if 1 / 2 < r then f + 1
         else if even f then f else f + 1)"

definition f32 :: "rat \<Rightarrow> rat" where
  "f32 q =
     (if q = 0 then 0
      else (let ulp = power_int 2 (f32_exponent \<bar>q\<bar> - 23)
            in sgn q * of_int (round_half_even (\<bar>q\<bar> / ulp)) * ulp))"

subsection \<open>matchOrdersProRata\<close>

text \<open>
  The loop that moves the sell orders at a matching price from the sell queue to the
  vector \<open>matchingOrders\<close> (lines 182 to 195). \<open>top()\<close> of an empty queue has no defined
  result: \<open>None\<close>.
\<close>

fun drainMatching :: "Order \<Rightarrow> Order list \<Rightarrow> Order list \<Rightarrow> (Order list \<times> Order list) option" where
  "drainMatching bestBuy [] matchingOrders = None"
| "drainMatching bestBuy (bestSell # sells) matchingOrders =
     (if getPrice bestBuy \<ge> getPrice bestSell
      then (if sells = [] then Some (matchingOrders @ [bestSell], [])
            else drainMatching bestBuy sells (matchingOrders @ [bestSell]))
      else Some (matchingOrders, bestSell # sells))"

text \<open>
  \<open>matchingOrders[i]\<close> is \<open>std::vector::operator[]\<close>, which checks no bounds. A read at
  \<open>i \<ge> size()\<close> is undefined by the standard; in the executions modelled it delivers the
  contents \<open>pastEnd\<close> of the memory behind the vector, whatever they are.
\<close>

definition vec_at :: "Order \<Rightarrow> Order list \<Rightarrow> nat \<Rightarrow> Order" where
  "vec_at pastEnd v i = (if i < length v then v ! i else pastEnd)"

text \<open>
  The scan for the next price level (lines 205 to 213), with the variable
  \<open>indexNextPriceLevel\<close> as \<open>indexNext\<close>. Besides the final value of \<open>indexNext\<close> it
  returns the indices at which it has read \<open>matchingOrders\<close>, in the order of the reads.
\<close>

function findNextPriceLevel ::
  "Order \<Rightarrow> Order list \<Rightarrow> nat \<Rightarrow> nat \<Rightarrow> nat \<Rightarrow> nat list \<Rightarrow> nat \<times> nat list" where
  "findNextPriceLevel pastEnd matchingOrders curIndex i indexNext reads =
     (if i < length matchingOrders
      then (let indexNext' = indexNext + 1;
                reads' = reads @ [indexNext', curIndex]
            in if getPrice (vec_at pastEnd matchingOrders indexNext')
                    > getPrice (vec_at pastEnd matchingOrders curIndex)
               then (indexNext', reads')
               else findNextPriceLevel pastEnd matchingOrders curIndex (i + 1) indexNext' reads')
      else (indexNext, reads))"
  by pat_completeness auto
termination
  by (relation "measure (\<lambda>(pastEnd, matchingOrders, curIndex, i, indexNext, reads).
        length matchingOrders - i)") auto

text \<open>
  The total amount of the price level (lines 216 to 220), an \<open>int\<close> that every \<open>+=\<close>
  reduces into the range of the type.
\<close>

function totalSellAmount :: "Order \<Rightarrow> Order list \<Rightarrow> nat \<Rightarrow> nat \<Rightarrow> int \<Rightarrow> int" where
  "totalSellAmount pastEnd matchingOrders i indexNext curTotalSellAmount =
     (if i < indexNext
      then totalSellAmount pastEnd matchingOrders (i + 1) indexNext
             (int32 (curTotalSellAmount + getAmount (vec_at pastEnd matchingOrders i)))
      else curTotalSellAmount)"
  by pat_completeness auto
termination
  by (relation "measure (\<lambda>(pastEnd, matchingOrders, i, indexNext, curTotalSellAmount).
        indexNext - i)") auto

text \<open>
  \<open>std::ceil(buyAmountBeforeFillingCurPriceLevel * proportion)\<close> with
  \<open>proportion = (float)sellAmount / (float)curTotalSellAmount\<close> (lines 238 and 239), for
  a total amount other than 0: two conversions to \<open>float\<close>, a division, the conversion of
  the buy amount, a product, and the least integer that is not below it (which is a float).
\<close>

definition floatShare :: "int \<Rightarrow> int \<Rightarrow> int \<Rightarrow> int" where
  "floatShare buyAmountBefore sellAmount curTotalSellAmount =
     (let proportion = f32 (f32 (of_int sellAmount) / f32 (of_int curTotalSellAmount))
      in \<lceil>f32 (f32 (of_int buyAmountBefore) * proportion)\<rceil>)"

text \<open>
  The conversion \<open>(int)\<close> of a float with an integer value. For a value outside the range
  of \<open>int\<close> the conversion is undefined in C++; the embedding gives it the result of the
  x86-64 conversion instruction, which is \<open>- 2 ^ 31\<close> for every float outside the range,
  for an infinity and for a NaN.
\<close>

definition castInt :: "int \<Rightarrow> int" where
  "castInt n = (if - (2 ^ 31) \<le> n \<and> n < 2 ^ 31 then n else - (2 ^ 31))"

text \<open>
  \<open>(int)std::ceil(buyAmountBeforeFillingCurPriceLevel * proportion)\<close>. With a total amount
  of 0 the quotient is an infinity or a NaN, and so are the product and its ceiling.
\<close>

definition ceilShare :: "int \<Rightarrow> int \<Rightarrow> int \<Rightarrow> int" where
  "ceilShare buyAmountBefore sellAmount curTotalSellAmount =
     (if curTotalSellAmount = 0 then - (2 ^ 31)
      else castInt (floatShare buyAmountBefore sellAmount curTotalSellAmount))"

text \<open>
  The loop that fills the sell orders of one price level (lines 227 to 256). The result is
  the vector, the remaining buy amount, the history and the flag \<open>buyOrdersStillRemaining\<close>.
  \<open>buyAmount -= amountFilled\<close> and \<open>sellAmount -= amountFilled\<close> are subtractions of
  \<open>int\<close>.
\<close>

function fillPriceLevel ::
  "Order \<Rightarrow> int \<Rightarrow> int \<Rightarrow> nat \<Rightarrow> nat \<Rightarrow> Order list \<Rightarrow> int \<Rightarrow> ProcessedOrder list
     \<Rightarrow> Order list \<times> int \<times> ProcessedOrder list \<times> bool" where
  "fillPriceLevel bestBuy curTotalSellAmount buyAmountBefore indexNext i matchingOrders buyAmount hist =
     (if i < indexNext
      then (if i \<ge> length matchingOrders
            then (matchingOrders, buyAmount, hist, False)
            else (let sellAmount = getAmount (matchingOrders ! i);
                      amountFilled = min (min buyAmount sellAmount)
                                         (ceilShare buyAmountBefore sellAmount curTotalSellAmount);
                      buyAmount' = int32 (buyAmount - amountFilled);
                      sellAmount' = int32 (sellAmount - amountFilled);
                      matchingOrders' = matchingOrders[i := setAmount sellAmount' (matchingOrders ! i)];
                      hist' = hist @ [ProcessedOrder (getID bestBuy) (getID (matchingOrders' ! i)) amountFilled]
                  in if buyAmount' = 0
                     then (matchingOrders', buyAmount', hist', False)
                     else fillPriceLevel bestBuy curTotalSellAmount buyAmountBefore indexNext (i + 1)
                            matchingOrders' buyAmount' hist'))
      else (matchingOrders, buyAmount, hist, True))"
  by pat_completeness auto
termination
  by (relation "measure (\<lambda>(bestBuy, curTotalSellAmount, buyAmountBefore, indexNext, i,
        matchingOrders, buyAmount, hist). indexNext - i)") auto

lemma fillPriceLevel_length:
  "length (fst (fillPriceLevel bestBuy tot before indexNext i v buyAmount hist)) = length v"
proof (induction bestBuy tot before indexNext i v buyAmount hist rule: fillPriceLevel.induct)
  case (1 bestBuy tot before indexNext i v buyAmount hist)
  show ?case
    using "1.IH" by (subst fillPriceLevel.simps) (simp add: Let_def)
qed

lemma findNextPriceLevel_advances:
  "indexNext + (if i < length v then 1 else 0)
     \<le> fst (findNextPriceLevel pastEnd v curIndex i indexNext reads)"
proof (induction pastEnd v curIndex i indexNext reads rule: findNextPriceLevel.induct)
  case (1 pastEnd v curIndex i indexNext reads)
  show ?case
  proof (cases "i < length v")
    case False
    then show ?thesis by simp
  next
    case True
    show ?thesis
    proof (cases "getPrice (vec_at pastEnd v (indexNext + 1)) > getPrice (vec_at pastEnd v curIndex)")
      case hit: True
      with True show ?thesis by simp
    next
      case miss: False
      from "1.IH" [OF True refl refl miss]
      have "indexNext + 1 \<le> fst (findNextPriceLevel pastEnd v curIndex (i + 1) (indexNext + 1)
              (reads @ [indexNext + 1, curIndex]))"
        by (simp split: if_splits)
      with True miss show ?thesis by (subst findNextPriceLevel.simps) (simp add: Let_def)
    qed
  qed
qed

text \<open>
  The loop over the price levels (lines 202 to 260). \<open>indexNextPriceLevel\<close> equals
  \<open>curIndex\<close> whenever the loop condition is evaluated (both start at 0 and the body ends
  with \<open>curIndex = indexNextPriceLevel\<close>), so the loop state carries \<open>curIndex\<close> only.
\<close>

function processPriceLevels ::
  "Order \<Rightarrow> Order \<Rightarrow> Order list \<Rightarrow> nat \<Rightarrow> int \<Rightarrow> ProcessedOrder list \<Rightarrow> bool
     \<Rightarrow> Order list \<times> int \<times> ProcessedOrder list" where
  "processPriceLevels pastEnd bestBuy matchingOrders curIndex buyAmount hist buyOrdersStillRemaining =
     (if curIndex < length matchingOrders \<and> buyOrdersStillRemaining
      then (let indexNext = fst (findNextPriceLevel pastEnd matchingOrders curIndex curIndex curIndex []);
                curTotalSellAmount = totalSellAmount pastEnd matchingOrders curIndex indexNext 0
            in case fillPriceLevel bestBuy curTotalSellAmount buyAmount indexNext curIndex
                      matchingOrders buyAmount hist of
                 (matchingOrders', buyAmount', hist', still) \<Rightarrow>
                   processPriceLevels pastEnd bestBuy matchingOrders' indexNext buyAmount' hist' still)
      else (matchingOrders, buyAmount, hist))"
  by pat_completeness auto
termination
proof (relation "measure (\<lambda>(pastEnd, bestBuy, matchingOrders, curIndex, buyAmount, hist, still).
        length matchingOrders - curIndex)")
  show "wf (measure (\<lambda>(pastEnd, bestBuy, matchingOrders, curIndex, buyAmount, hist, still).
        length matchingOrders - curIndex))"
    by simp
next
  fix pastEnd bestBuy :: Order and matchingOrders :: "Order list" and curIndex :: nat
    and buyAmount :: int and hist :: "ProcessedOrder list" and buyOrdersStillRemaining :: bool
    and indexNext :: nat and curTotalSellAmount :: int
    and matchingOrders' :: "Order list" and y :: "int \<times> ProcessedOrder list \<times> bool"
    and buyAmount' :: int and z :: "ProcessedOrder list \<times> bool"
    and hist' :: "ProcessedOrder list" and still :: bool
  assume a: "curIndex < length matchingOrders \<and> buyOrdersStillRemaining"
    and n: "indexNext = fst (findNextPriceLevel pastEnd matchingOrders curIndex curIndex curIndex [])"
    and f: "(matchingOrders', y) = fillPriceLevel bestBuy curTotalSellAmount buyAmount indexNext
                  curIndex matchingOrders buyAmount hist"
  from a n findNextPriceLevel_advances [of curIndex curIndex matchingOrders pastEnd curIndex "[]"]
  have "curIndex < indexNext" by simp
  moreover from f fillPriceLevel_length [of bestBuy curTotalSellAmount buyAmount indexNext curIndex
      matchingOrders buyAmount hist]
  have "length matchingOrders' = length matchingOrders"
    by (metis fst_conv)
  ultimately show "((pastEnd, bestBuy, matchingOrders', indexNext, buyAmount', hist', still),
          pastEnd, bestBuy, matchingOrders, curIndex, buyAmount, hist, buyOrdersStillRemaining)
        \<in> measure (\<lambda>(pastEnd, bestBuy, matchingOrders, curIndex, buyAmount, hist, still).
        length matchingOrders - curIndex)"
    using a by (simp add: diff_less_mono2)
qed

text \<open>The loop that puts the sell orders with a positive amount back (lines 263 to 269).\<close>

fun reAddSells :: "Order list \<Rightarrow> Order list \<Rightarrow> Order list" where
  "reAddSells [] sells = sells"
| "reAddSells (matchingSell # rest) sells =
     reAddSells rest
       (if getAmount matchingSell > 0 then pq_push prioritizeMin matchingSell sells else sells)"

text \<open>
  The outer loop. Whether it ends depends on the amounts in the book, so the result is an
  option: \<open>None\<close> when the loop does not end.
\<close>

partial_function (option) matchOrdersProRata :: "Order \<Rightarrow> Orderbook \<Rightarrow> Orderbook option" where
  "matchOrdersProRata pastEnd book =
     (case m_buyOrders book of
        [] \<Rightarrow> Some book
      | bestBuy # buys \<Rightarrow>
         (case m_sellOrders book of
            [] \<Rightarrow> Some book
          | topSell # others \<Rightarrow>
             if getPrice bestBuy < getPrice topSell then Some book
             else (case drainMatching bestBuy (m_sellOrders book) [] of
                     None \<Rightarrow> None
                   | Some (matchingOrders, sells) \<Rightarrow>
                      (case processPriceLevels pastEnd bestBuy matchingOrders 0 (getAmount bestBuy)
                              (m_orderHistory book) True of
                         (matchingOrders', buyAmount, hist) \<Rightarrow>
                           matchOrdersProRata pastEnd
                             (book\<lparr>m_buyOrders :=
                                     (if buyAmount > 0
                                      then pq_push prioritizeMax (setAmount buyAmount bestBuy) buys
                                      else buys),
                                   m_sellOrders := reAddSells matchingOrders' sells,
                                   m_orderHistory := hist\<rparr>)))))"

declare matchOrdersProRata.simps [code]

subsection \<open>printOrderbookContents\<close>

text \<open>
  The three loops of \<open>printOrderbookContents\<close> (lines 313 to 347). A stack is a list with
  its top at the head. Each printed row shows one order; the output is represented by the
  list of the orders shown, in the order of the rows.
\<close>

fun drainSellsToStack :: "Order list \<Rightarrow> Order list \<Rightarrow> Order list \<times> Order list" where
  "drainSellsToStack [] sellOrdersAscending = ([], sellOrdersAscending)"
| "drainSellsToStack (topSell # sells) sellOrdersAscending =
     drainSellsToStack sells (topSell # sellOrdersAscending)"

fun printSellStack :: "Order list \<Rightarrow> Order list \<Rightarrow> Order list \<times> Order list" where
  "printSellStack [] out = ([], out)"
| "printSellStack (curSell # sellOrdersAscending) out =
     printSellStack sellOrdersAscending (out @ [curSell])"

fun printBuys :: "Order list \<Rightarrow> Order list \<Rightarrow> Order list \<times> Order list" where
  "printBuys [] out = ([], out)"
| "printBuys (curBuy # buys) out = printBuys buys (out @ [curBuy])"

definition printOrderbookContents :: "Orderbook \<Rightarrow> Orderbook \<times> Order list" where
  "printOrderbookContents book =
     (case drainSellsToStack (m_sellOrders book) [] of
        (sells, sellOrdersAscending) \<Rightarrow>
          (case printSellStack sellOrdersAscending [] of
             (emptied, out) \<Rightarrow>
               (case printBuys (m_buyOrders book) out of
                  (buys, out') \<Rightarrow> (book\<lparr>m_buyOrders := buys, m_sellOrders := sells\<rparr>, out'))))"

subsection \<open>printOrderHistory\<close>

text \<open>
  The loop of \<open>printOrderHistory\<close> (lines 288 to 295): it prints the front record and
  pops it until the history is empty. The output is the list of the records printed.
\<close>

fun printHistoryLoop :: "ProcessedOrder list \<Rightarrow> ProcessedOrder list \<Rightarrow> ProcessedOrder list \<times> ProcessedOrder list" where
  "printHistoryLoop [] out = ([], out)"
| "printHistoryLoop (curProcessed # hist) out = printHistoryLoop hist (out @ [curProcessed])"

definition printOrderHistory :: "Orderbook \<Rightarrow> Orderbook \<times> ProcessedOrder list" where
  "printOrderHistory book =
     (case printHistoryLoop (m_orderHistory book) [] of
        (hist, out) \<Rightarrow> (book\<lparr>m_orderHistory := hist\<rparr>, out))"

section \<open>Notions used to state the properties\<close>

text \<open>
  The ledger names an order by its identifier only. \<open>residentQty x q\<close> is the quantity
  that the orders with identifier \<open>x\<close> have in the queue \<open>q\<close>; \<open>filledBuy x h\<close> and
  \<open>filledSell x h\<close> are the quantities that the records of \<open>h\<close> fill for the buy order,
  respectively the sell order, with that identifier.
\<close>

definition residentQty :: "int \<Rightarrow> Order list \<Rightarrow> int" where
  "residentQty x q = sum_list (map getAmount (filter (\<lambda>ord. getID ord = x) q))"

definition filledBuy :: "int \<Rightarrow> ProcessedOrder list \<Rightarrow> int" where
  "filledBuy x h = sum_list (map fillAmount (filter (\<lambda>r. buyID r = x) h))"

definition filledSell :: "int \<Rightarrow> ProcessedOrder list \<Rightarrow> int" where
  "filledSell x h = sum_list (map fillAmount (filter (\<lambda>r. sellID r = x) h))"

text \<open>The records that a pass appends to the history \<open>h\<close>, given the history \<open>h'\<close> after it.\<close>

definition newFills :: "ProcessedOrder list \<Rightarrow> ProcessedOrder list \<Rightarrow> ProcessedOrder list" where
  "newFills h h' = drop (length h) h'"

text \<open>The invariant of the data model: every resident order has a positive quantity.\<close>

definition positiveBook :: "Orderbook \<Rightarrow> bool" where
  "positiveBook book =
     ((\<forall>ord \<in> set (m_buyOrders book). 0 < getAmount ord) \<and>
      (\<forall>ord \<in> set (m_sellOrders book). 0 < getAmount ord))"

text \<open>Every resident quantity is a value of the type \<open>int\<close>.\<close>

definition intBook :: "Orderbook \<Rightarrow> bool" where
  "intBook book =
     ((\<forall>ord \<in> set (m_buyOrders book). - (2 ^ 31) \<le> getAmount ord \<and> getAmount ord < 2 ^ 31) \<and>
      (\<forall>ord \<in> set (m_sellOrders book). - (2 ^ 31) \<le> getAmount ord \<and> getAmount ord < 2 ^ 31))"

text \<open>
  The books on which no computation of \<open>matchOrdersProRata\<close> leaves the range of
  \<open>int\<close>: the resident quantities are positive, every buy quantity is at most 2147483583
  (the largest \<open>int\<close> whose conversion to \<open>float\<close> is below \<open>2 ^ 31\<close>), and the sell
  quantities of the book add up to less than \<open>2 ^ 31\<close>.
\<close>

definition safeBook :: "Orderbook \<Rightarrow> bool" where
  "safeBook book =
     (positiveBook book \<and>
      (\<forall>ord \<in> set (m_buyOrders book). getAmount ord \<le> 2147483583) \<and>
      sum_list (map getAmount (m_sellOrders book)) < 2 ^ 31)"

text \<open>
  The order of a queue: an element is never delivered before one that the comparator puts
  in front of it.
\<close>

definition orderedBook :: "Orderbook \<Rightarrow> bool" where
  "orderedBook book =
     (sorted_wrt (\<lambda>a b. \<not> prioritizeMax a b) (m_buyOrders book) \<and>
      sorted_wrt (\<lambda>a b. \<not> prioritizeMin a b) (m_sellOrders book))"

text \<open>
  One iteration as the specification words it: the trade quantity is the minimum of the
  two remaining quantities, both orders are reduced by it, one record is appended, and an
  order is put back exactly when it retains a positive quantity.
\<close>

definition fifoIteration_spec :: "Order \<Rightarrow> Order list \<Rightarrow> Order \<Rightarrow> Order list \<Rightarrow> Orderbook \<Rightarrow> Orderbook" where
  "fifoIteration_spec bestBuy buys bestSell sells book =
     (let qty = min (getAmount bestBuy) (getAmount bestSell);
          buyLeft = getAmount bestBuy - qty;
          sellLeft = getAmount bestSell - qty
      in book\<lparr>m_buyOrders :=
                 (if 0 < buyLeft then pq_push prioritizeMax (setAmount buyLeft bestBuy) buys else buys),
               m_sellOrders :=
                 (if 0 < sellLeft then pq_push prioritizeMin (setAmount sellLeft bestSell) sells else sells),
               m_orderHistory :=
                 m_orderHistory book @ [ProcessedOrder (getID bestBuy) (getID bestSell) qty]\<rparr>)"

text \<open>The book of scenario A: one buy and one sell order that cross.\<close>

definition scenarioA :: Orderbook where
  "scenarioA = addOrder (Order ''T'' 2 False False 10 800 5)
                 (addOrder (Order ''T'' 1 False True 10 900 5) (Orderbook ''T''))"


definition scenarioC :: Orderbook where
  "scenarioC = addOrder (Order ''T'' 2 False False 10 800 3)
                 (addOrder (Order ''T'' 1 False True (19 / 2) 900 8) (Orderbook ''T''))"

text \<open>
  Conservation between two books: the history of the second extends the history of the
  first by some fills, and for every identifier the quantity resident under it plus the
  quantity that these fills record against it is the quantity resident before, on the buy
  side and on the sell side.
\<close>

definition conserved :: "Orderbook \<Rightarrow> Orderbook \<Rightarrow> bool" where
  "conserved book book' =
     (\<exists>fills. m_orderHistory book' = m_orderHistory book @ fills \<and>
        (\<forall>x. residentQty x (m_buyOrders book') + filledBuy x fills = residentQty x (m_buyOrders book) \<and>
             residentQty x (m_sellOrders book') + filledSell x fills = residentQty x (m_sellOrders book)))"

text \<open>
  The same between two states of the loops that fill the vector \<open>matchingOrders\<close> for
  the buy order \<open>bestBuy\<close>: a state is the vector, the remaining buy amount and the
  history. Amounts that are not negative stay so.
\<close>

definition levelConserved ::
  "Order \<Rightarrow> Order list \<times> int \<times> ProcessedOrder list \<Rightarrow> Order list \<times> int \<times> ProcessedOrder list \<Rightarrow> bool" where
  "levelConserved bestBuy st st' =
     (case st of (v, B, h) \<Rightarrow> case st' of (v', B', h') \<Rightarrow>
        (\<exists>fills. h' = h @ fills \<and> length v' = length v \<and>
           (\<forall>x. residentQty x v' + filledSell x fills = residentQty x v) \<and>
           sum_list (map getAmount v') + sum_list (map fillAmount fills) = sum_list (map getAmount v) \<and>
           B' + sum_list (map fillAmount fills) = B \<and>
           (\<forall>r \<in> set fills. buyID r = getID bestBuy) \<and>
           ((\<forall>ord \<in> set v. 0 \<le> getAmount ord) \<longrightarrow> (\<forall>ord \<in> set v'. 0 \<le> getAmount ord)) \<and>
           (0 \<le> B \<longrightarrow> 0 \<le> B')))"

text \<open>
  The book of scenario D (one buy order of 10 against two sell orders of 30 and 10 at
  its price) with the book that \<open>matchOrdersProRata\<close> makes of it, and a book with one
  buy order of 50 against two sell orders of 30 and 70 with the book made of it.
\<close>

definition scenarioD :: Orderbook where
  "scenarioD =
     fold addOrder
       [Order ''T'' 1 False True 10 900 10, Order ''T'' 2 False False 10 800 30,
        Order ''T'' 3 False False 10 801 10]
       (Orderbook ''T'')"

definition scenarioD_after :: Orderbook where
  "scenarioD_after =
     \<lparr>m_bookTicker = ''T'', m_buyOrders = [],
      m_sellOrders = [Order ''T'' 2 False False 10 800 22, Order ''T'' 3 False False 10 801 8],
      m_orderHistory = [\<lparr>buyID = 1, sellID = 2, fillAmount = 8\<rparr>,
                        \<lparr>buyID = 1, sellID = 3, fillAmount = 2\<rparr>]\<rparr>"

definition scenarioE :: Orderbook where
  "scenarioE =
     fold addOrder
       [Order ''T'' 1 False True 10 900 50, Order ''T'' 2 False False 10 800 30,
        Order ''T'' 3 False False 10 801 70]
       (Orderbook ''T'')"

definition scenarioE_after :: Orderbook where
  "scenarioE_after =
     \<lparr>m_bookTicker = ''T'', m_buyOrders = [],
      m_sellOrders = [Order ''T'' 2 False False 10 800 14, Order ''T'' 3 False False 10 801 36],
      m_orderHistory = [\<lparr>buyID = 1, sellID = 2, fillAmount = 16\<rparr>,
                        \<lparr>buyID = 1, sellID = 3, fillAmount = 34\<rparr>]\<rparr>"

text \<open>
  A book with one buy and one sell order of 2147483647, the largest \<open>int\<close>, at one
  price, and the book that \<open>matchOrdersProRata\<close> makes of it.
\<close>

definition largeBook :: Orderbook where
  "largeBook =
     fold addOrder
       [Order ''T'' 1 False True 10 900 2147483647, Order ''T'' 2 False False 10 800 2147483647]
       (Orderbook ''T'')"

definition largeBook_after :: Orderbook where
  "largeBook_after =
     \<lparr>m_bookTicker = ''T'', m_buyOrders = [], m_sellOrders = [],
      m_orderHistory = [\<lparr>buyID = 1, sellID = 2, fillAmount = - 2147483648\<rparr>]\<rparr>"

text \<open>
  A book with a buy order of 1 and two sell orders of \<open>2 ^ 30\<close> at its price: the
  quantities are positive, and the total of the price level is not a value of \<open>int\<close>.
\<close>

definition loopBook :: Orderbook where
  "loopBook =
     fold addOrder
       [Order ''T'' 1 False True 10 900 1, Order ''T'' 2 False False 10 800 1073741824,
        Order ''T'' 3 False False 10 801 1073741824]
       (Orderbook ''T'')"

text \<open>
  The states of the loop that fills the price level from \<open>i\<close> to \<open>indexNext\<close> in which
  no computation leaves the range of \<open>int\<close>: \<open>B\<close> is the buy quantity, \<open>B0\<close> the buy
  quantity at the start of the level and \<open>L\<close> the level's total.
\<close>

definition levelSafe :: "nat \<Rightarrow> nat \<Rightarrow> Order list \<Rightarrow> int \<Rightarrow> int \<Rightarrow> int \<Rightarrow> bool" where
  "levelSafe indexNext i v B B0 L =
     (indexNext \<le> length v \<and> 0 < B \<and> B \<le> B0 \<and> B0 \<le> 2147483583 \<and> L < 2 ^ 31 \<and>
      (\<forall>k. i \<le> k \<and> k < indexNext \<longrightarrow> 0 < getAmount (v ! k) \<and> getAmount (v ! k) \<le> L))"

text \<open>Some contents of the memory behind a vector, for the examples.\<close>

definition staleOrder :: Order where
  "staleOrder = Order [] 0 False False 0 0 0"

text \<open>
  The books that a program can make with the public operations of the class: it starts
  from the constructor and calls \<open>addOrder\<close>, the matching passes and the printing
  operations in any order.
\<close>

inductive reachable :: "Orderbook \<Rightarrow> bool" where
  start: "reachable (Orderbook ticker)"
| add: "reachable book \<Longrightarrow> reachable (addOrder newOrder book)"
| fifo: "reachable book \<Longrightarrow> reachable (matchOrdersFIFO book)"
| proRata: "reachable book \<Longrightarrow> matchOrdersProRata pastEnd book = Some book' \<Longrightarrow> reachable book'"
| contents: "reachable book \<Longrightarrow> reachable (fst (printOrderbookContents book))"
| history: "reachable book \<Longrightarrow> reachable (fst (printOrderHistory book))"

text \<open>A book with three buy and two sell orders, admitted in this order.\<close>

definition priorityBook :: Orderbook where
  "priorityBook =
     fold addOrder
       [Order ''T'' 1 False True 10 900 5, Order ''T'' 2 False True 11 905 5,
        Order ''T'' 3 False True 10 800 5, Order ''T'' 4 False False 12 900 5,
        Order ''T'' 5 False False 12 800 5]
       (Orderbook ''T'')"

text \<open>
  The allocation within one price level as the specification words it: for each sell
  order of the level, in the list's order, the fill is the minimum of the buy quantity still
  available, the order's quantity and its share; the level stops when the buy quantity
  reaches 0. \<open>share\<close> is the rule that computes the share from the buy quantity at the
  start of the level, the order's quantity and the level's total.
\<close>

fun levelFills_spec :: "(int \<Rightarrow> int \<Rightarrow> int \<Rightarrow> int) \<Rightarrow> int \<Rightarrow> int \<Rightarrow> int \<Rightarrow> int list \<Rightarrow> int list" where
  "levelFills_spec share B0 L B [] = []"
| "levelFills_spec share B0 L B (sellQty # rest) =
     (let fill = min B (min sellQty (share B0 sellQty L))
      in fill # (if B - fill = 0 then [] else levelFills_spec share B0 L (B - fill) rest))"

text \<open>The share in exact arithmetic: \<open>ceil(B0 * sellQty / L)\<close>.\<close>

definition exactShare :: "int \<Rightarrow> int \<Rightarrow> int \<Rightarrow> int" where
  "exactShare B0 sellQty L = \<lceil>(of_int B0 * of_int sellQty / of_int L :: rat)\<rceil>"

section \<open>addOrder\<close>

lemma mset_pq_push: "mset (pq_push cmp x q) = add_mset x (mset q)"
  by (induction q) auto

lemma set_pq_push: "set (pq_push cmp x q) = insert x (set q)"
  by (induction q) auto

text \<open>
  C3, as the code has it: \<open>addOrder\<close> checks neither the quantity nor the price. Every
  order, whatever its quantity and price, is inserted into the buy queue when its side is
  buy and into the sell queue otherwise; the other queue and the history are left as they
  are, so no matching takes place.
\<close>

theorem addOrder_inserts_every_order:
  "m_orderHistory (addOrder newOrder book) = m_orderHistory book \<and>
   (checkIsBuy newOrder \<longrightarrow>
      mset (m_buyOrders (addOrder newOrder book)) = add_mset newOrder (mset (m_buyOrders book)) \<and>
      m_sellOrders (addOrder newOrder book) = m_sellOrders book) \<and>
   (\<not> checkIsBuy newOrder \<longrightarrow>
      mset (m_sellOrders (addOrder newOrder book)) = add_mset newOrder (mset (m_sellOrders book)) \<and>
      m_buyOrders (addOrder newOrder book) = m_buyOrders book)"
  by (simp add: addOrder_def mset_pq_push)

theorem addOrder_inserts_every_order_witness:
  "checkIsBuy (Order ''T'' 1 False True 10 900 5) \<and>
   \<not> checkIsBuy (Order ''T'' 2 False False (- 1) 800 0) \<and>
   mset (m_buyOrders (addOrder (Order ''T'' 1 False True 10 900 5) (Orderbook ''T'')))
     = {#Order ''T'' 1 False True 10 900 5#} \<and>
   mset (m_sellOrders (addOrder (Order ''T'' 2 False False (- 1) 800 0) (Orderbook ''T'')))
     = {#Order ''T'' 2 False False (- 1) 800 0#}"
  using addOrder_inserts_every_order [of "Order ''T'' 1 False True 10 900 5" "Orderbook ''T''"]
    addOrder_inserts_every_order [of "Order ''T'' 2 False False (- 1) 800 0" "Orderbook ''T''"]
  by (simp add: checkIsBuy_def Order_def Orderbook_def)

text \<open>
  The claim C3 itself fails: an order with quantity 0 (and one with a negative price) is
  not rejected, it becomes resident.
\<close>

theorem addOrder_rejects_counterexample:
  "getAmount (Order ''T'' 1 False True 10 900 0) \<le> 0 \<and>
   m_buyOrders (addOrder (Order ''T'' 1 False True 10 900 0) (Orderbook ''T''))
     = [Order ''T'' 1 False True 10 900 0] \<and>
   getPrice (Order ''T'' 2 False False (- 1) 800 5) \<le> 0 \<and>
   m_sellOrders (addOrder (Order ''T'' 2 False False (- 1) 800 5) (Orderbook ''T''))
     = [Order ''T'' 2 False False (- 1) 800 5]"
  by (simp add: addOrder_def checkIsBuy_def getAmount_def getPrice_def Order_def Orderbook_def)

section \<open>Order identifiers\<close>

lemma getID_setAmount: "getID (setAmount a ord) = getID ord"
  by (simp add: getID_def setAmount_def)

lemma getID_Order: "getID (Order t x mk b p tm a) = (x + 2 ^ 31) mod 2 ^ 32 - 2 ^ 31"
proof -
  have "(ucast (word_of_int x :: 64 word) :: 32 word) = word_of_int x"
    by (rule ucast_down_wi) (simp add: is_down)
  then show ?thesis
    by (simp add: getID_def Order_def int_word_sint)
qed

lemma signed32_id: "((x::int) + 2 ^ 31) mod 2 ^ 32 - 2 ^ 31 = x \<longleftrightarrow> - (2 ^ 31) \<le> x \<and> x < 2 ^ 31"
proof
  assume "(x + 2 ^ 31) mod 2 ^ 32 - 2 ^ 31 = x"
  then have "(x + 2 ^ 31) mod 2 ^ 32 = x + 2 ^ 31" by simp
  moreover have "0 \<le> (x + 2 ^ 31) mod 2 ^ 32" "(x + 2 ^ 31) mod 2 ^ 32 < 2 ^ 32" by simp_all
  ultimately show "- (2 ^ 31) \<le> x \<and> x < 2 ^ 31" by simp
next
  assume "- (2 ^ 31) \<le> x \<and> x < 2 ^ 31"
  then have "(x + 2 ^ 31) mod 2 ^ 32 = x + 2 ^ 31" by (intro mod_pos_pos_trivial) auto
  then show "(x + 2 ^ 31) mod 2 ^ 32 - 2 ^ 31 = x" by simp
qed

text \<open>
  C10: the identifier that \<open>getID\<close> shows, and that a fill record stores, is the identifier
  given to the constructor reduced modulo \<open>2 ^ 32\<close> and read as a signed 32-bit number. It
  is the given identifier exactly when that fits a signed 32-bit \<open>int\<close>; two identifiers
  that agree modulo \<open>2 ^ 32\<close> give the same \<open>getID\<close> and the same record of a trade.
\<close>

theorem getID_reduces_modulo_2_32:
  "getID (Order t x mk b p tm a) = (x + 2 ^ 31) mod 2 ^ 32 - 2 ^ 31 \<and>
   (getID (Order t x mk b p tm a) = x \<longleftrightarrow> - (2 ^ 31) \<le> x \<and> x < 2 ^ 31) \<and>
   (x mod 2 ^ 32 = y mod 2 ^ 32 \<longrightarrow>
      getID (Order t x mk b p tm a) = getID (Order t' y mk' b' p' tm' a')) \<and>
   (let buy = Order t x mk True p tm a; sell = Order t' y mk' False p' tm' a'
    in buyID (last (m_orderHistory (fifoTrade buy sell book))) = (x + 2 ^ 31) mod 2 ^ 32 - 2 ^ 31 \<and>
       sellID (last (m_orderHistory (fifoTrade buy sell book))) = (y + 2 ^ 31) mod 2 ^ 32 - 2 ^ 31)"
proof -
  have one: "getID (Order t x mk b p tm a) = (x + 2 ^ 31) mod 2 ^ 32 - 2 ^ 31"
    by (rule getID_Order)
  have two: "getID (Order t x mk b p tm a) = x \<longleftrightarrow> - (2 ^ 31) \<le> x \<and> x < 2 ^ 31"
    unfolding getID_Order by (rule signed32_id)
  have three: "getID (Order t x mk b p tm a) = getID (Order t' y mk' b' p' tm' a')"
    if "x mod 2 ^ 32 = y mod 2 ^ 32"
  proof -
    from that have "(x + 2 ^ 31) mod 2 ^ 32 = (y + 2 ^ 31) mod 2 ^ 32"
      by (metis mod_add_left_eq)
    then show ?thesis by (simp only: getID_Order)
  qed
  have four: "buyID (last (m_orderHistory (fifoTrade buy sell book))) = getID buy \<and>
      sellID (last (m_orderHistory (fifoTrade buy sell book))) = getID sell" for buy sell
    by (simp add: fifoTrade_def Let_def ProcessedOrder_def getID_setAmount)
  show ?thesis
    using one two three four by (simp add: Let_def getID_Order)
qed

theorem getID_reduces_modulo_2_32_witness:
  "(1::int) mod 2 ^ 32 = 4294967297 mod 2 ^ 32 \<and>
   getID (Order ''T'' 1 False True 10 900 5) = 1 \<and>
   getID (Order ''T'' 4294967297 False True 10 900 5) = 1 \<and>
   getID (Order ''T'' 4294967295 False True 10 900 5) = - 1"
  using getID_reduces_modulo_2_32 [of "''T''" 1 False True 10 900 5 4294967297 "''T''" False True 10 900 5 "Orderbook ''T''"]
    getID_reduces_modulo_2_32 [of "''T''" 4294967295 False True 10 900 5 1 "''T''" False True 10 900 5 "Orderbook ''T''"]
  by simp

section \<open>Arithmetic within the range of int\<close>

lemma int32_id: "- 2147483648 \<le> n \<Longrightarrow> n < 2147483648 \<Longrightarrow> int32 n = n"
  by (simp add: int32_def)

section \<open>matchOrdersFIFO\<close>

lemma fifoTrade_spec:
  assumes "\<bar>getAmount bestBuy - getAmount bestSell\<bar> < 2 ^ 31"
  shows "fifoTrade bestBuy bestSell (book\<lparr>m_buyOrders := buys, m_sellOrders := sells\<rparr>)
           = fifoIteration_spec bestBuy buys bestSell sells book"
proof -
  from assms have "\<bar>getAmount bestBuy - getAmount bestSell\<bar> < 2147483648" by simp
  then have "int32 (getAmount bestBuy - getAmount bestSell) = getAmount bestBuy - getAmount bestSell"
    and "int32 (getAmount bestSell - getAmount bestBuy) = getAmount bestSell - getAmount bestBuy"
    by (simp_all add: int32_id)
  then show ?thesis
    by (cases "getAmount bestBuy > getAmount bestSell"; cases "getAmount bestBuy < getAmount bestSell")
       (simp_all add: fifoTrade_def fifoIteration_spec_def Let_def getID_setAmount min_def)
qed



text \<open>
  C6: when both queues are non-empty and the best buy price is below the best sell price,
  either pass ends at once. \<open>matchOrdersFIFO\<close> pops both orders and pushes them back, so
  each queue holds the same orders with the same quantities as before and the history is
  the same; \<open>matchOrdersProRata\<close> leaves the loop before it touches the book.
\<close>

theorem no_cross_leaves_book:
  assumes "m_buyOrders book = bestBuy # buys"
    and "m_sellOrders book = bestSell # sells"
    and "getPrice bestBuy < getPrice bestSell"
  shows "mset (m_buyOrders (matchOrdersFIFO book)) = mset (m_buyOrders book) \<and>
         mset (m_sellOrders (matchOrdersFIFO book)) = mset (m_sellOrders book) \<and>
         m_orderHistory (matchOrdersFIFO book) = m_orderHistory book \<and>
         matchOrdersProRata pastEnd book = Some book"
proof -
  have "matchOrdersFIFO book = book\<lparr>m_buyOrders := pq_push prioritizeMax bestBuy buys,
          m_sellOrders := pq_push prioritizeMin bestSell sells\<rparr>"
    using assms by (subst matchOrdersFIFO.simps) simp
  moreover have "matchOrdersProRata pastEnd book = Some book"
    using assms by (subst matchOrdersProRata.simps) simp
  ultimately show ?thesis
    using assms by (simp add: mset_pq_push)
qed

theorem no_cross_leaves_book_witness:
  "m_buyOrders scenarioC = [Order ''T'' 1 False True (19 / 2) 900 8] \<and>
   m_sellOrders scenarioC = [Order ''T'' 2 False False 10 800 3] \<and>
   getPrice (Order ''T'' 1 False True (19 / 2) 900 8) < getPrice (Order ''T'' 2 False False 10 800 3) \<and>
   mset (m_buyOrders (matchOrdersFIFO scenarioC)) = {#Order ''T'' 1 False True (19 / 2) 900 8#} \<and>
   mset (m_sellOrders (matchOrdersFIFO scenarioC)) = {#Order ''T'' 2 False False 10 800 3#} \<and>
   m_orderHistory (matchOrdersFIFO scenarioC) = [] \<and>
   matchOrdersProRata staleOrder scenarioC = Some scenarioC"
proof -
  have b: "m_buyOrders scenarioC = [Order ''T'' 1 False True (19 / 2) 900 8]"
    and s: "m_sellOrders scenarioC = [Order ''T'' 2 False False 10 800 3]"
    and h: "m_orderHistory scenarioC = []"
    by (simp_all add: scenarioC_def addOrder_def checkIsBuy_def Order_def Orderbook_def)
  have p: "getPrice (Order ''T'' 1 False True (19 / 2) 900 8) < getPrice (Order ''T'' 2 False False 10 800 3)"
    by (simp add: getPrice_def Order_def)
  from no_cross_leaves_book [OF b s p, of staleOrder] b s p h show ?thesis
    by simp
qed

section \<open>printOrderbookContents\<close>

lemma drainSellsToStack_eq: "drainSellsToStack q st = ([], rev q @ st)"
  by (induction q arbitrary: st) auto

lemma printSellStack_eq: "printSellStack st out = ([], out @ st)"
  by (induction st arbitrary: out) auto

lemma printBuys_eq: "printBuys q out = ([], out @ q)"
  by (induction q arbitrary: out) auto

lemma printOrderbookContents_eq:
  "printOrderbookContents book =
     (book\<lparr>m_buyOrders := [], m_sellOrders := []\<rparr>, rev (m_sellOrders book) @ m_buyOrders book)"
  by (simp add: printOrderbookContents_def drainSellsToStack_eq printSellStack_eq printBuys_eq)

text \<open>
  C9, as the code has it: \<open>printOrderbookContents\<close> empties both queues and does not
  rebuild them. After it both queues are empty; the rows show the sell orders from the last
  to the first of the sell queue, then the buy orders from the first to the last of the buy
  queue; the history is left as it is.
\<close>

theorem printOrderbookContents_drains:
  "printOrderbookContents book =
     (book\<lparr>m_buyOrders := [], m_sellOrders := []\<rparr>, rev (m_sellOrders book) @ m_buyOrders book)"
  by (rule printOrderbookContents_eq)

text \<open>
  The claim C9 itself fails: in the book of scenario C each queue holds one order before
  the call and none after it.
\<close>

theorem printOrderbookContents_counterexample:
  "m_buyOrders scenarioC = [Order ''T'' 1 False True (19 / 2) 900 8] \<and>
   m_sellOrders scenarioC = [Order ''T'' 2 False False 10 800 3] \<and>
   m_buyOrders (fst (printOrderbookContents scenarioC)) = [] \<and>
   m_sellOrders (fst (printOrderbookContents scenarioC)) = []"
  by (simp add: printOrderbookContents_def scenarioC_def addOrder_def checkIsBuy_def Order_def
      Orderbook_def)

section \<open>The index of the level scan\<close>

lemma findNextPriceLevel_bound:
  "fst (findNextPriceLevel pastEnd v curIndex i indexNext reads) \<le> indexNext + (length v - i)"
proof (induction pastEnd v curIndex i indexNext reads rule: findNextPriceLevel.induct)
  case (1 pastEnd v curIndex i indexNext reads)
  show ?case
  proof (cases "i < length v")
    case False
    then show ?thesis by simp
  next
    case True
    show ?thesis
    proof (cases "getPrice (vec_at pastEnd v (indexNext + 1)) > getPrice (vec_at pastEnd v curIndex)")
      case hit: True
      with True show ?thesis by simp
    next
      case miss: False
      from "1.IH" [OF True refl refl miss]
      have "fst (findNextPriceLevel pastEnd v curIndex (i + 1) (indexNext + 1)
              (reads @ [indexNext + 1, curIndex])) \<le> indexNext + 1 + (length v - (i + 1))"
        by simp
      with True miss show ?thesis by (subst findNextPriceLevel.simps) (simp add: Let_def)
    qed
  qed
qed

text \<open>
  Whenever the scan makes a step, the index that it returns is one that it has read.
  It returns the size of the vector for the last price level (by the bound above it never
  returns more), so every pass that reaches the last level reads one element past the end.
\<close>

lemma findNextPriceLevel_reads_result:
  "i < length v \<Longrightarrow>
   fst (findNextPriceLevel pastEnd v curIndex i indexNext reads)
     \<in> set (snd (findNextPriceLevel pastEnd v curIndex i indexNext reads))"
proof (induction pastEnd v curIndex i indexNext reads rule: findNextPriceLevel.induct)
  case (1 pastEnd v curIndex i indexNext reads)
  show ?case
  proof (cases "getPrice (vec_at pastEnd v (indexNext + 1)) > getPrice (vec_at pastEnd v curIndex)")
    case True
    with "1.prems" show ?thesis by (simp add: Let_def)
  next
    case miss: False
    show ?thesis
    proof (cases "i + 1 < length v")
      case True
      from "1.IH" [OF "1.prems" refl refl miss True] "1.prems" miss show ?thesis
        by (subst (1 2) findNextPriceLevel.simps) (simp add: Let_def)
    next
      case False
      then have "findNextPriceLevel pastEnd v curIndex (i + 1) (indexNext + 1)
            (reads @ [indexNext + 1, curIndex]) = (indexNext + 1, reads @ [indexNext + 1, curIndex])"
        by (subst findNextPriceLevel.simps) simp
      with "1.prems" miss show ?thesis
        by (subst (1 2) findNextPriceLevel.simps) (simp add: Let_def)
    qed
  qed
qed

text \<open>
  C2 at the book of scenario A: the vector \<open>matchingOrders\<close> holds the one sell order,
  and the scan for the next price level reads it at index 1 and then at index 0. Index 1
  is not below the size 1 of the vector.
\<close>

theorem findNextPriceLevel_reads_past_end:
  "m_buyOrders scenarioA = [Order ''T'' 1 False True 10 900 5] \<and>
   drainMatching (Order ''T'' 1 False True 10 900 5) (m_sellOrders scenarioA) []
     = Some ([Order ''T'' 2 False False 10 800 5], []) \<and>
   snd (findNextPriceLevel pastEnd [Order ''T'' 2 False False 10 800 5] 0 0 0 []) = [1, 0] \<and>
   \<not> (1::nat) < length [Order ''T'' 2 False False 10 800 5]"
  by (simp add: Let_def scenarioA_def addOrder_def checkIsBuy_def Order_def Orderbook_def
      getPrice_def)

section \<open>The comparators keep a queue in order\<close>

lemma sorted_pq_push:
  assumes asym: "\<And>a b. cmp a b \<Longrightarrow> \<not> cmp b a"
    and trans: "\<And>a b c. cmp a b \<Longrightarrow> cmp b c \<Longrightarrow> cmp a c"
    and q: "sorted_wrt (\<lambda>a b. \<not> cmp a b) q"
  shows "sorted_wrt (\<lambda>a b. \<not> cmp a b) (pq_push cmp x q)"
  using q
proof (induction q)
  case Nil
  then show ?case by simp
next
  case (Cons y ys)
  show ?case
  proof (cases "cmp y x")
    case True
    have "\<not> cmp x z" if "z \<in> set ys" for z
    proof
      assume "cmp x z"
      with True have "cmp y z" by (rule trans)
      with Cons.prems that show False by simp
    qed
    with True Cons.prems asym show ?thesis by auto
  next
    case False
    with Cons show ?thesis by (auto simp: set_pq_push)
  qed
qed

lemma prioritizeMax_asym: "prioritizeMax a b \<Longrightarrow> \<not> prioritizeMax b a"
  by (auto simp: prioritizeMax_def split: if_splits)

lemma prioritizeMax_trans: "prioritizeMax a b \<Longrightarrow> prioritizeMax b c \<Longrightarrow> prioritizeMax a c"
  by (auto simp: prioritizeMax_def split: if_splits)

lemma prioritizeMin_asym: "prioritizeMin a b \<Longrightarrow> \<not> prioritizeMin b a"
  by (auto simp: prioritizeMin_def split: if_splits)

lemma prioritizeMin_trans: "prioritizeMin a b \<Longrightarrow> prioritizeMin b c \<Longrightarrow> prioritizeMin a c"
  by (auto simp: prioritizeMin_def split: if_splits)

section \<open>Rounding to single precision\<close>

text \<open>
  \<open>f32\<close> keeps the sign, maps a positive number to a number between the powers of 2 that
  enclose it, and is monotone; 2147483583 is the largest integer that it maps below
  \<open>2 ^ 31\<close>.
\<close>

lemma f32_exponent_le:
  assumes "0 < a"
  shows "power_int 2 (f32_exponent a) \<le> a"
proof (cases "1 \<le> a")
  case True
  define n where "n = nat \<lfloor>a\<rfloor>"
  from True have n: "0 < n" by (simp add: n_def)
  from floorlog_bounds [OF n, of 2] have b: "2 ^ (floorlog 2 n - 1) \<le> n" "n < 2 ^ floorlog 2 n"
    by simp_all
  from n b(2) have k: "0 < floorlog 2 n"
    by (cases "floorlog 2 n") auto
  then have "int (floorlog 2 n) - 1 = int (floorlog 2 n - 1)" by linarith
  moreover have "f32_exponent a = int (floorlog 2 n) - 1"
    using True by (simp only: f32_exponent_def bitlen_def n_def if_True)
  ultimately have "f32_exponent a = int (floorlog 2 n - 1)" by (rule trans [rotated])
  then have "power_int 2 (f32_exponent a) = (2::rat) ^ (floorlog 2 n - 1)"
    by (simp only: power_int_of_nat)
  also have "\<dots> \<le> of_nat n"
  proof -
    from b(1) have "(of_nat (2 ^ (floorlog 2 n - 1)) :: rat) \<le> of_nat n"
      by (simp only: of_nat_le_iff)
    then show ?thesis by simp
  qed
  also have "\<dots> = of_int \<lfloor>a\<rfloor>"
    using True by (simp add: n_def)
  also have "\<dots> \<le> a" by simp
  finally show ?thesis .
next
  case False
  with assms have inv: "1 < 1 / a" by simp
  define c where "c = \<lceil>1 / a\<rceil>"
  from inv have c: "2 \<le> c" unfolding c_def by linarith
  define n where "n = nat (c - 1)"
  from c have n: "0 < n" by (simp add: n_def)
  from floorlog_bounds [OF n, of 2] have "n < 2 ^ floorlog 2 n" by simp
  then have "int n < int (2 ^ floorlog 2 n)"
    by (simp only: of_nat_less_iff)
  then have "int n < 2 ^ floorlog 2 n"
    by simp
  with c have "c \<le> 2 ^ floorlog 2 n" by (simp add: n_def)
  then have "(of_int c :: rat) \<le> of_int (2 ^ floorlog 2 n)"
    by (simp only: of_int_le_iff)
  then have up: "(of_int c :: rat) \<le> 2 ^ floorlog 2 n"
    by simp
  have "1 / a \<le> of_int c" by (simp add: c_def)
  from this up have "1 / a \<le> 2 ^ floorlog 2 n" by (rule order_trans)
  with assms have "1 / 2 ^ floorlog 2 n \<le> a"
    by (simp add: field_simps)
  moreover have "f32_exponent a = - int (floorlog 2 n)"
    using False by (simp only: f32_exponent_def bitlen_def n_def c_def if_False)
  then have "power_int 2 (f32_exponent a) = 1 / (2::rat) ^ floorlog 2 n"
    by (simp only: power_int_minus_divide power_int_of_nat)
  ultimately show ?thesis by simp
qed

lemma round_half_even_ge: "1 \<le> m \<Longrightarrow> 1 \<le> round_half_even m"
proof -
  assume "1 \<le> m"
  then have "1 \<le> \<lfloor>m\<rfloor>" by simp
  then show ?thesis by (simp add: round_half_even_def Let_def)
qed

lemma f32_pos:
  assumes "0 < q"
  shows "0 < f32 q"
proof -
  define ulp :: rat where "ulp = power_int 2 (f32_exponent \<bar>q\<bar> - 23)"
  have ulp: "0 < ulp" by (simp add: ulp_def)
  have "ulp = power_int 2 (f32_exponent q) / 2 ^ 23"
    using assms by (simp add: ulp_def power_int_diff)
  also have "\<dots> \<le> power_int 2 (f32_exponent q)"
    by (simp add: field_simps less_imp_le)
  also have "\<dots> \<le> q" using assms by (rule f32_exponent_le)
  finally have "1 \<le> \<bar>q\<bar> / ulp" using ulp assms by (simp add: field_simps)
  then have "1 \<le> round_half_even (\<bar>q\<bar> / ulp)" by (rule round_half_even_ge)
  then have "0 < (of_int (round_half_even (\<bar>q\<bar> / ulp)) :: rat)" by simp
  with ulp have "0 < of_int (round_half_even (\<bar>q\<bar> / ulp)) * ulp"
    by simp
  with assms show ?thesis
    by (simp add: f32_def Let_def ulp_def)
qed


lemma f32_exponent_gt:
  assumes "0 < a"
  shows "a < power_int 2 (f32_exponent a + 1)"
proof (cases "1 \<le> a")
  case True
  define n where "n = \<lfloor>a\<rfloor>"
  from True have n: "0 < n" by (simp add: n_def)
  from bitlen_bounds [OF n] have b: "n < 2 ^ nat (bitlen n)" by simp
  have k: "0 \<le> bitlen n" by (rule bitlen_nonneg)
  have "f32_exponent a + 1 = bitlen n"
    using True by (simp add: f32_exponent_def n_def)
  also from k have "\<dots> = int (nat (bitlen n))" by simp
  finally have "power_int 2 (f32_exponent a + 1) = (2::rat) ^ nat (bitlen n)"
    by (simp only: power_int_of_nat)
  moreover from b have "n + 1 \<le> 2 ^ nat (bitlen n)" by simp
  then have "(of_int (n + 1) :: rat) \<le> of_int (2 ^ nat (bitlen n))"
    by (simp only: of_int_le_iff)
  then have "(of_int n :: rat) + 1 \<le> 2 ^ nat (bitlen n)" by simp
  moreover have "a < of_int n + 1" unfolding n_def by linarith
  ultimately show ?thesis by simp
next
  case False
  with assms have inv: "1 < 1 / a" by simp
  define c where "c = \<lceil>1 / a\<rceil>"
  from inv have c: "2 \<le> c" unfolding c_def by linarith
  define n where "n = c - 1"
  from c have n: "0 < n" by (simp add: n_def)
  from bitlen_bounds [OF n] have b: "2 ^ nat (bitlen n - 1) \<le> n" by simp
  from n have k: "1 \<le> bitlen n"
    using bitlen_eq_zero_iff [of n] bitlen_nonneg [of n] by linarith
  have "f32_exponent a + 1 = - (bitlen n - 1)"
    using False by (simp add: f32_exponent_def n_def c_def)
  also from k have "\<dots> = - int (nat (bitlen n - 1))" by simp
  finally have p: "power_int 2 (f32_exponent a + 1) = 1 / (2::rat) ^ nat (bitlen n - 1)"
    by (simp only: power_int_minus_divide power_int_of_nat)
  from b have "(of_int (2 ^ nat (bitlen n - 1)) :: rat) \<le> of_int n"
    by (simp only: of_int_le_iff)
  then have "(2::rat) ^ nat (bitlen n - 1) \<le> of_int n" by simp
  moreover have "of_int n < 1 / a" unfolding n_def c_def by linarith
  ultimately have "(2::rat) ^ nat (bitlen n - 1) < 1 / a" by (rule le_less_trans)
  with assms have "a < 1 / (2::rat) ^ nat (bitlen n - 1)"
    by (simp add: field_simps)
  with p show ?thesis by simp
qed

lemma f32_exponent_mono:
  assumes "0 < x" and "x \<le> y"
  shows "f32_exponent x \<le> f32_exponent y"
proof (rule ccontr)
  assume "\<not> f32_exponent x \<le> f32_exponent y"
  then have "f32_exponent y + 1 \<le> f32_exponent x" by simp
  then have "power_int (2::rat) (f32_exponent y + 1) \<le> power_int 2 (f32_exponent x)"
    by (intro power_int_increasing) simp_all
  also have "\<dots> \<le> x" using assms(1) by (rule f32_exponent_le)
  finally have "power_int 2 (f32_exponent y + 1) \<le> y" using assms(2) by simp
  moreover from assms have "y < power_int 2 (f32_exponent y + 1)"
    by (intro f32_exponent_gt) simp
  ultimately show False by simp
qed

lemma round_half_even_bounds:
  "\<lfloor>m\<rfloor> \<le> round_half_even m \<and> round_half_even m \<le> \<lceil>m\<rceil>"
proof -
  have "\<lfloor>m\<rfloor> \<le> round_half_even m"
    by (simp add: round_half_even_def Let_def)
  moreover have "round_half_even m \<le> \<lceil>m\<rceil>"
  proof (cases "m = of_int \<lfloor>m\<rfloor>")
    case True
    then show ?thesis by (simp add: round_half_even_def Let_def)
  next
    case False
    then have "\<lceil>m\<rceil> = \<lfloor>m\<rfloor> + 1"
      by (metis ceiling_altdef)
    then show ?thesis by (simp add: round_half_even_def Let_def)
  qed
  ultimately show ?thesis by simp
qed

lemma round_half_even_mono:
  assumes "m \<le> m'"
  shows "round_half_even m \<le> round_half_even m'"
proof (cases "\<lfloor>m\<rfloor> = \<lfloor>m'\<rfloor>")
  case True
  with assms have "m - of_int \<lfloor>m\<rfloor> \<le> m' - of_int \<lfloor>m'\<rfloor>" by simp
  with True show ?thesis
    by (auto simp: round_half_even_def Let_def)
next
  case False
  with assms have lt: "\<lfloor>m\<rfloor> < \<lfloor>m'\<rfloor>"
    using floor_mono [OF assms] by linarith
  then have "of_int (\<lfloor>m\<rfloor> + 1) \<le> m'" by linarith
  have "m < of_int \<lfloor>m'\<rfloor>" using lt by linarith
  then have "\<lceil>m\<rceil> \<le> \<lfloor>m'\<rfloor>" by linarith
  with round_half_even_bounds [of m] round_half_even_bounds [of m'] show ?thesis
    by linarith
qed

lemma round_half_even_of_int: "round_half_even (of_int n) = n"
  by (simp add: round_half_even_def Let_def)

lemma f32_eq:
  "0 < q \<Longrightarrow>
   f32 q = of_int (round_half_even (q / power_int 2 (f32_exponent q - 23)))
             * power_int 2 (f32_exponent q - 23)"
  by (simp add: f32_def Let_def)

lemma f32_upper:
  assumes "0 < q"
  shows "f32 q \<le> power_int 2 (f32_exponent q + 1)"
proof -
  define ulp :: rat where "ulp = power_int 2 (f32_exponent q - 23)"
  have ulp: "0 < ulp" by (simp add: ulp_def)
  have top: "power_int 2 (f32_exponent q + 1) = 2 ^ 24 * ulp"
    by (simp add: ulp_def power_int_diff power_int_add)
  from f32_exponent_gt [OF assms] have "q < 2 ^ 24 * ulp" by (simp only: top)
  with ulp have "q / ulp \<le> of_int (2 ^ 24)" by (simp add: field_simps)
  then have "round_half_even (q / ulp) \<le> round_half_even (of_int (2 ^ 24))"
    by (rule round_half_even_mono)
  then have "round_half_even (q / ulp) \<le> 2 ^ 24"
    by (simp only: round_half_even_of_int)
  then have "(of_int (round_half_even (q / ulp)) :: rat) \<le> of_int (2 ^ 24)"
    by (simp only: of_int_le_iff)
  then have "(of_int (round_half_even (q / ulp)) :: rat) * ulp \<le> 2 ^ 24 * ulp"
    using ulp by simp
  then show ?thesis
    unfolding top f32_eq [OF assms] ulp_def .
qed

lemma f32_lower:
  assumes "0 < q"
  shows "power_int 2 (f32_exponent q) \<le> f32 q"
proof -
  define ulp :: rat where "ulp = power_int 2 (f32_exponent q - 23)"
  have ulp: "0 < ulp" by (simp add: ulp_def)
  have bot: "power_int 2 (f32_exponent q) = 2 ^ 23 * ulp"
    by (simp add: ulp_def power_int_diff)
  from f32_exponent_le [OF assms] have "2 ^ 23 * ulp \<le> q" by (simp only: bot)
  with ulp have "of_int (2 ^ 23) \<le> q / ulp" by (simp add: field_simps)
  then have "round_half_even (of_int (2 ^ 23)) \<le> round_half_even (q / ulp)"
    by (rule round_half_even_mono)
  then have "2 ^ 23 \<le> round_half_even (q / ulp)"
    by (simp only: round_half_even_of_int)
  then have "(of_int (2 ^ 23) :: rat) \<le> of_int (round_half_even (q / ulp))"
    by (simp only: of_int_le_iff)
  then have "2 ^ 23 * ulp \<le> (of_int (round_half_even (q / ulp)) :: rat) * ulp"
    using ulp by simp
  then show ?thesis
    unfolding bot f32_eq [OF assms] ulp_def .
qed

lemma f32_mono:
  assumes "0 < x" and "x \<le> y"
  shows "f32 x \<le> f32 y"
proof (cases "f32_exponent x = f32_exponent y")
  case True
  define ulp :: rat where "ulp = power_int 2 (f32_exponent y - 23)"
  have ulp: "0 < ulp" by (simp add: ulp_def)
  from assms ulp have "x / ulp \<le> y / ulp" by (simp add: divide_right_mono)
  then have "round_half_even (x / ulp) \<le> round_half_even (y / ulp)"
    by (rule round_half_even_mono)
  then have "(of_int (round_half_even (x / ulp)) :: rat) \<le> of_int (round_half_even (y / ulp))"
    by (simp only: of_int_le_iff)
  then have main: "(of_int (round_half_even (x / ulp)) :: rat) * ulp \<le> of_int (round_half_even (y / ulp)) * ulp"
    using ulp by simp
  from assms have y: "0 < y" by simp
  from main show ?thesis
    unfolding f32_eq [OF assms(1)] f32_eq [OF y] True ulp_def .
next
  case False
  with f32_exponent_mono [OF assms] have "f32_exponent x + 1 \<le> f32_exponent y" by simp
  then have "power_int (2::rat) (f32_exponent x + 1) \<le> power_int 2 (f32_exponent y)"
    by (intro power_int_increasing) simp_all
  moreover from assms have y: "0 < y" by simp
  ultimately show ?thesis
    using f32_upper [OF assms(1)] f32_lower [OF y] by linarith
qed

lemma f32_one: "f32 1 = 1"
  by code_simp

lemma f32_maxBuy: "f32 2147483583 = 2147483520"
  by code_simp

lemma f32_below_range: "f32 2147483520 = 2147483520"
  by code_simp

text \<open>
  The share of an order of a level, where the buy quantity is at most 2147483583 and the
  order's quantity is at most the level's total: the float product is at least 1 and at
  most 2147483520, so that its conversion to \<open>int\<close> is exact.
\<close>

lemma floatShare_bounds:
  assumes "0 < B0" and "B0 \<le> 2147483583" and "0 < s" and "s \<le> L"
  shows "1 \<le> floatShare B0 s L \<and> floatShare B0 s L \<le> 2147483520"
proof -
  define p where "p = f32 (f32 (of_int s) / f32 (of_int L))"
  define b where "b = f32 (of_int B0)"
  from assms have s: "0 < f32 (of_int s)" by (simp add: f32_pos)
  from assms have "(0::rat) < of_int s" "(of_int s :: rat) \<le> of_int L" by simp_all
  then have sL: "f32 (of_int s) \<le> f32 (of_int L)" by (rule f32_mono)
  with s have L: "0 < f32 (of_int L)" by simp
  from s L have q0: "0 < f32 (of_int s) / f32 (of_int L)" by simp
  from sL L have q1: "f32 (of_int s) / f32 (of_int L) \<le> 1" by simp
  from q0 have p0: "0 < p" unfolding p_def by (rule f32_pos)
  from f32_mono [OF q0 q1] have p1: "p \<le> 1" by (simp add: p_def f32_one)
  from assms have b0: "0 < b" by (simp add: b_def f32_pos)
  from assms have "(0::rat) < of_int B0" "(of_int B0 :: rat) \<le> 2147483583" by simp_all
  from f32_mono [OF this] have b1: "b \<le> 2147483520" by (simp add: b_def f32_maxBuy)
  from b0 p0 have bp0: "0 < b * p" by simp
  from b0 p1 have "b * p \<le> b * 1" by (intro mult_left_mono) simp_all
  with b1 have bp1: "b * p \<le> 2147483520" by simp
  from bp0 have r0: "0 < f32 (b * p)" by (rule f32_pos)
  from f32_mono [OF bp0 bp1] have r1: "f32 (b * p) \<le> 2147483520" by (simp add: f32_below_range)
  from r1 have "\<lceil>f32 (b * p)\<rceil> \<le> \<lceil>2147483520 :: rat\<rceil>" by (rule ceiling_mono)
  then have "\<lceil>f32 (b * p)\<rceil> \<le> 2147483520" by simp
  moreover from r0 have "1 \<le> \<lceil>f32 (b * p)\<rceil>" by linarith
  ultimately show ?thesis
    by (simp add: floatShare_def Let_def p_def b_def)
qed

lemma ceilShare_safe:
  assumes "0 < B0" and "B0 \<le> 2147483583" and "0 < s" and "s \<le> L"
  shows "ceilShare B0 s L = floatShare B0 s L"
  using floatShare_bounds [OF assms] assms(3,4) by (simp add: ceilShare_def castInt_def)

text \<open>One fill in a state in which no computation leaves the range of \<open>int\<close>.\<close>

lemma fill_safe:
  assumes "0 < B" and "B \<le> B0" and "B0 \<le> 2147483583" and "0 < s" and "s \<le> L" and "L < 2 ^ 31"
  shows "min (min B s) (ceilShare B0 s L) = min B (min s (floatShare B0 s L))"
    and "1 \<le> min B (min s (floatShare B0 s L))"
    and "int32 (B - min B (min s (floatShare B0 s L))) = B - min B (min s (floatShare B0 s L))"
    and "int32 (s - min B (min s (floatShare B0 s L))) = s - min B (min s (floatShare B0 s L))"
proof -
  define f where "f = min B (min s (floatShare B0 s L))"
  from assms have B0: "0 < B0" by simp
  from assms have L: "L < 2147483648" by simp
  from ceilShare_safe [OF B0 assms(3,4,5)]
  show "min (min B s) (ceilShare B0 s L) = min B (min s (floatShare B0 s L))"
    by (simp add: min.assoc)
  from floatShare_bounds [OF B0 assms(3,4,5)] assms(1,4)
  have f1: "1 \<le> f" by (simp add: f_def)
  then show "1 \<le> min B (min s (floatShare B0 s L))" by (simp only: f_def)
  have fB: "f \<le> B" and fs: "f \<le> s" by (simp_all add: f_def)
  from f1 fB assms have "- 2147483648 \<le> B - f" "B - f < 2147483648" by linarith+
  then have "int32 (B - f) = B - f" by (rule int32_id)
  then show "int32 (B - min B (min s (floatShare B0 s L))) = B - min B (min s (floatShare B0 s L))"
    by (simp only: f_def)
  from f1 fs assms(4,5) L have "- 2147483648 \<le> s - f" "s - f < 2147483648" by linarith+
  then have "int32 (s - f) = s - f" by (rule int32_id)
  then show "int32 (s - min B (min s (floatShare B0 s L))) = s - min B (min s (floatShare B0 s L))"
    by (simp only: f_def)
qed


section \<open>Conservation of quantity\<close>

declare fillPriceLevel.simps [simp del] processPriceLevels.simps [simp del]
  findNextPriceLevel.simps [simp del] totalSellAmount.simps [simp del]
  matchOrdersFIFO.simps [simp del]

lemma residentQty_Nil: "residentQty x [] = 0"
  by (simp add: residentQty_def)

lemma residentQty_Cons:
  "residentQty x (ord # q) = (if getID ord = x then getAmount ord else 0) + residentQty x q"
  by (simp add: residentQty_def)

lemma residentQty_append: "residentQty x (q @ r) = residentQty x q + residentQty x r"
  by (simp add: residentQty_def)

lemma residentQty_pq_push:
  "residentQty x (pq_push cmp ord q) = (if getID ord = x then getAmount ord else 0) + residentQty x q"
  by (induction q) (simp_all add: residentQty_Cons residentQty_Nil)

lemma residentQty_update:
  "i < length v \<Longrightarrow>
   residentQty x (v[i := setAmount a (v ! i)])
     = residentQty x v + (if getID (v ! i) = x then a - getAmount (v ! i) else 0)"
proof (induction v arbitrary: i)
  case Nil
  then show ?case by simp
next
  case (Cons ord v)
  show ?case
  proof (cases i)
    case 0
    then show ?thesis
      by (simp add: residentQty_Cons getID_setAmount) (simp add: getAmount_def setAmount_def)
  next
    case (Suc k)
    with Cons show ?thesis by (simp add: residentQty_Cons)
  qed
qed

lemma sum_amounts_update:
  "i < length v \<Longrightarrow>
   sum_list (map getAmount (v[i := setAmount a (v ! i)]))
     = sum_list (map getAmount v) + a - getAmount (v ! i)"
proof (induction v arbitrary: i)
  case Nil
  then show ?case by simp
next
  case (Cons ord v)
  show ?case
  proof (cases i)
    case 0
    then show ?thesis by (simp add: getAmount_def setAmount_def)
  next
    case (Suc k)
    with Cons show ?thesis by simp
  qed
qed

lemma sum_amounts_pq_push:
  "sum_list (map getAmount (pq_push cmp ord q)) = getAmount ord + sum_list (map getAmount q)"
  by (induction q) auto

lemma sum_amounts_nonneg:
  "\<forall>ord \<in> set q. 0 \<le> getAmount ord \<Longrightarrow> 0 \<le> sum_list (map getAmount q)"
  by (induction q) auto

lemma amount_le_sum:
  "\<forall>ord \<in> set q. 0 \<le> getAmount ord \<Longrightarrow> a \<in> set q \<Longrightarrow> getAmount a \<le> sum_list (map getAmount q)"
proof (induction q)
  case Nil
  then show ?case by simp
next
  case (Cons b q)
  from Cons.prems(1) have "0 \<le> getAmount b" and rest: "\<forall>ord \<in> set q. 0 \<le> getAmount ord"
    by simp_all
  from rest have "0 \<le> sum_list (map getAmount q)" by (rule sum_amounts_nonneg)
  with Cons \<open>0 \<le> getAmount b\<close> rest show ?case by auto
qed

lemma filledBuy_append: "filledBuy x (h @ k) = filledBuy x h + filledBuy x k"
  by (simp add: filledBuy_def)

lemma filledSell_append: "filledSell x (h @ k) = filledSell x h + filledSell x k"
  by (simp add: filledSell_def)

lemma filledBuy_same_buyer:
  "\<forall>r \<in> set fills. buyID r = b \<Longrightarrow>
   filledBuy x fills = (if x = b then sum_list (map fillAmount fills) else 0)"
  by (induction fills) (auto simp: filledBuy_def)

lemma conserved_refl: "conserved book book"
  by (simp add: conserved_def filledBuy_def filledSell_def)

lemma conserved_trans:
  assumes "conserved a b" and "conserved b c"
  shows "conserved a c"
proof -
  from assms(1) obtain f where f: "m_orderHistory b = m_orderHistory a @ f"
    "\<And>x. residentQty x (m_buyOrders b) + filledBuy x f = residentQty x (m_buyOrders a)"
    "\<And>x. residentQty x (m_sellOrders b) + filledSell x f = residentQty x (m_sellOrders a)"
    unfolding conserved_def by blast
  from assms(2) obtain g where g: "m_orderHistory c = m_orderHistory b @ g"
    "\<And>x. residentQty x (m_buyOrders c) + filledBuy x g = residentQty x (m_buyOrders b)"
    "\<And>x. residentQty x (m_sellOrders c) + filledSell x g = residentQty x (m_sellOrders b)"
    unfolding conserved_def by blast
  have "m_orderHistory c = m_orderHistory a @ (f @ g)"
    using f(1) g(1) by simp
  moreover have "residentQty x (m_buyOrders c) + filledBuy x (f @ g) = residentQty x (m_buyOrders a)" for x
    using f(2) [of x] g(2) [of x] by (simp add: filledBuy_append)
  moreover have "residentQty x (m_sellOrders c) + filledSell x (f @ g) = residentQty x (m_sellOrders a)" for x
    using f(3) [of x] g(3) [of x] by (simp add: filledSell_append)
  ultimately show ?thesis
    unfolding conserved_def by blast
qed

lemma levelConserved_refl: "levelConserved bestBuy st st"
  by (cases st) (simp add: levelConserved_def filledSell_def)

lemma levelConserved_trans:
  assumes "levelConserved bestBuy st1 st2" and "levelConserved bestBuy st2 st3"
  shows "levelConserved bestBuy st1 st3"
proof -
  obtain v1 B1 h1 v2 B2 h2 v3 B3 h3
    where st: "st1 = (v1, B1, h1)" "st2 = (v2, B2, h2)" "st3 = (v3, B3, h3)"
    by (cases st1, cases st2, cases st3) blast
  from assms(1) obtain f where f: "h2 = h1 @ f" "length v2 = length v1"
    "\<And>x. residentQty x v2 + filledSell x f = residentQty x v1"
    "sum_list (map getAmount v2) + sum_list (map fillAmount f) = sum_list (map getAmount v1)"
    "B2 + sum_list (map fillAmount f) = B1"
    "\<forall>r \<in> set f. buyID r = getID bestBuy"
    "(\<forall>ord \<in> set v1. 0 \<le> getAmount ord) \<longrightarrow> (\<forall>ord \<in> set v2. 0 \<le> getAmount ord)"
    "0 \<le> B1 \<longrightarrow> 0 \<le> B2"
    unfolding levelConserved_def st by auto
  from assms(2) obtain g where g: "h3 = h2 @ g" "length v3 = length v2"
    "\<And>x. residentQty x v3 + filledSell x g = residentQty x v2"
    "sum_list (map getAmount v3) + sum_list (map fillAmount g) = sum_list (map getAmount v2)"
    "B3 + sum_list (map fillAmount g) = B2"
    "\<forall>r \<in> set g. buyID r = getID bestBuy"
    "(\<forall>ord \<in> set v2. 0 \<le> getAmount ord) \<longrightarrow> (\<forall>ord \<in> set v3. 0 \<le> getAmount ord)"
    "0 \<le> B2 \<longrightarrow> 0 \<le> B3"
    unfolding levelConserved_def st by auto
  have "h3 = h1 @ (f @ g)" using f(1) g(1) by simp
  moreover have "length v3 = length v1" using f(2) g(2) by simp
  moreover have "residentQty x v3 + filledSell x (f @ g) = residentQty x v1" for x
    using f(3) [of x] g(3) [of x] by (simp add: filledSell_append)
  moreover have "sum_list (map getAmount v3) + sum_list (map fillAmount (f @ g)) = sum_list (map getAmount v1)"
    using f(4) g(4) by simp
  moreover have "B3 + sum_list (map fillAmount (f @ g)) = B1"
    using f(5) g(5) by simp
  moreover have "\<forall>r \<in> set (f @ g). buyID r = getID bestBuy"
    using f(6) g(6) by auto
  moreover have "(\<forall>ord \<in> set v1. 0 \<le> getAmount ord) \<longrightarrow> (\<forall>ord \<in> set v3. 0 \<le> getAmount ord)"
    using f(7) g(7) by blast
  moreover have "0 \<le> B1 \<longrightarrow> 0 \<le> B3"
    using f(8) g(8) by blast
  ultimately show ?thesis
    unfolding levelConserved_def st by blast
qed

lemma levelConserved_fill:
  assumes i: "i < length v" and fs: "f \<le> getAmount (v ! i)" and fb: "f \<le> B"
  shows "levelConserved bestBuy (v, B, h)
           (v[i := setAmount (getAmount (v ! i) - f) (v ! i)], B - f,
            h @ [ProcessedOrder (getID bestBuy) (getID (v ! i)) f])"
proof -
  let ?v' = "v[i := setAmount (getAmount (v ! i) - f) (v ! i)]"
  let ?r = "ProcessedOrder (getID bestBuy) (getID (v ! i)) f"
  have "residentQty x ?v' + filledSell x [?r] = residentQty x v" for x
    using i by (simp add: residentQty_update filledSell_def ProcessedOrder_def)
  moreover have "sum_list (map getAmount ?v') + sum_list (map fillAmount [?r]) = sum_list (map getAmount v)"
    using i by (simp add: sum_amounts_update ProcessedOrder_def)
  moreover have "\<forall>ord \<in> set ?v'. 0 \<le> getAmount ord" if "\<forall>ord \<in> set v. 0 \<le> getAmount ord"
  proof
    fix ord assume "ord \<in> set ?v'"
    then have "ord = setAmount (getAmount (v ! i) - f) (v ! i) \<or> ord \<in> set v"
      using set_update_subset_insert [of v i] by auto
    with that fs show "0 \<le> getAmount ord"
      by (auto simp: getAmount_def setAmount_def)
  qed
  moreover have "B - f + sum_list (map fillAmount [?r]) = B"
    by (simp add: ProcessedOrder_def)
  moreover have "\<forall>r \<in> set [?r]. buyID r = getID bestBuy"
    by (simp add: ProcessedOrder_def)
  ultimately show ?thesis
    unfolding levelConserved_def using fb by (simp del: sum_list.Cons)
qed

text \<open>One round of the loop that fills a price level.\<close>

lemma fillPriceLevel_step:
  assumes "i < indexNext" and "i < length v"
  shows "fillPriceLevel bestBuy L B0 indexNext i v B h =
     (let s = getAmount (v ! i);
          f = min (min B s) (ceilShare B0 s L);
          v1 = v[i := setAmount (int32 (s - f)) (v ! i)];
          h1 = h @ [ProcessedOrder (getID bestBuy) (getID (v ! i)) f]
      in if int32 (B - f) = 0 then (v1, int32 (B - f), h1, False)
         else fillPriceLevel bestBuy L B0 indexNext (i + 1) v1 (int32 (B - f)) h1)"
  using assms by (subst fillPriceLevel.simps) (simp add: Let_def getID_setAmount)

lemma fillPriceLevel_safe_step:
  assumes "levelSafe indexNext i v B B0 L" and "i < indexNext"
    and "f = min B (min (getAmount (v ! i)) (floatShare B0 (getAmount (v ! i)) L))"
  shows "fillPriceLevel bestBuy L B0 indexNext i v B h =
     (if B - f = 0
      then (v[i := setAmount (getAmount (v ! i) - f) (v ! i)], B - f,
            h @ [ProcessedOrder (getID bestBuy) (getID (v ! i)) f], False)
      else fillPriceLevel bestBuy L B0 indexNext (i + 1)
             (v[i := setAmount (getAmount (v ! i) - f) (v ! i)]) (B - f)
             (h @ [ProcessedOrder (getID bestBuy) (getID (v ! i)) f]))"
    and "1 \<le> f" and "f \<le> B" and "f \<le> getAmount (v ! i)"
    and "B - f \<noteq> 0 \<Longrightarrow> levelSafe indexNext (i + 1) (v[i := setAmount a (v ! i)]) (B - f) B0 L"
proof -
  from assms(1,2) have len: "i < length v"
    and B: "0 < B" "B \<le> B0" "B0 \<le> 2147483583"
    and s: "0 < getAmount (v ! i)" "getAmount (v ! i) \<le> L" and L: "L < 2 ^ 31"
    by (simp_all add: levelSafe_def)
  note fs = fill_safe [OF B s L, folded assms(3)]
  show "fillPriceLevel bestBuy L B0 indexNext i v B h =
     (if B - f = 0
      then (v[i := setAmount (getAmount (v ! i) - f) (v ! i)], B - f,
            h @ [ProcessedOrder (getID bestBuy) (getID (v ! i)) f], False)
      else fillPriceLevel bestBuy L B0 indexNext (i + 1)
             (v[i := setAmount (getAmount (v ! i) - f) (v ! i)]) (B - f)
             (h @ [ProcessedOrder (getID bestBuy) (getID (v ! i)) f]))"
    unfolding fillPriceLevel_step [OF assms(2) len] Let_def fs ..
  from fs(2) show f1: "1 \<le> f" .
  show fB: "f \<le> B" and "f \<le> getAmount (v ! i)" by (simp_all add: assms(3))
  show "levelSafe indexNext (i + 1) (v[i := setAmount a (v ! i)]) (B - f) B0 L" if "B - f \<noteq> 0"
    using that assms(1) f1 fB by (auto simp: levelSafe_def)
qed

lemma fillPriceLevel_conserved:
  "levelSafe indexNext i v B B0 L \<Longrightarrow>
   fillPriceLevel bestBuy L B0 indexNext i v B h = (v', B', h', st) \<Longrightarrow>
   levelConserved bestBuy (v, B, h) (v', B', h')"
proof (induction n \<equiv> "indexNext - i" arbitrary: i v B h)
  case 0
  then show ?case
    by (subst (asm) fillPriceLevel.simps) (simp add: levelConserved_refl)
next
  case (Suc n)
  then have lt: "i < indexNext" by simp
  from Suc.prems(1) lt have len: "i < length v" by (simp add: levelSafe_def)
  define f where "f = min B (min (getAmount (v ! i)) (floatShare B0 (getAmount (v ! i)) L))"
  define v1 where "v1 = v[i := setAmount (getAmount (v ! i) - f) (v ! i)]"
  define h1 where "h1 = h @ [ProcessedOrder (getID bestBuy) (getID (v ! i)) f]"
  note st = fillPriceLevel_safe_step [OF Suc.prems(1) lt f_def]
  have unroll: "fillPriceLevel bestBuy L B0 indexNext i v B h =
     (if B - f = 0 then (v1, B - f, h1, False)
      else fillPriceLevel bestBuy L B0 indexNext (i + 1) v1 (B - f) h1)"
    unfolding v1_def h1_def by (rule st(1))
  have step: "levelConserved bestBuy (v, B, h) (v1, B - f, h1)"
    unfolding v1_def h1_def using len st(3,4) by (intro levelConserved_fill)
  show ?case
  proof (cases "B - f = 0")
    case True
    with Suc.prems(2) unroll have "(v', B', h') = (v1, B - f, h1)" by simp
    with step show ?thesis by simp
  next
    case nz: False
    with Suc.prems(2) unroll
    have run: "fillPriceLevel bestBuy L B0 indexNext (i + 1) v1 (B - f) h1 = (v', B', h', st)"
      by simp
    from Suc.hyps(2) have n: "n = indexNext - (i + 1)" by simp
    from st(5) [OF nz] have safe: "levelSafe indexNext (i + 1) v1 (B - f) B0 L"
      unfolding v1_def .
    from Suc.hyps(1) [OF n safe run] step show ?thesis
      by (rule levelConserved_trans [rotated])
  qed
qed

lemma fillPriceLevel_outside:
  "fillPriceLevel bestBuy L B0 indexNext i v B h = (v', B', h', st) \<Longrightarrow> indexNext \<le> k \<Longrightarrow>
   v' ! k = v ! k"
proof (induction n \<equiv> "indexNext - i" arbitrary: i v B h)
  case 0
  then show ?case
    by (subst (asm) fillPriceLevel.simps) auto
next
  case (Suc n)
  then have lt: "i < indexNext" by simp
  show ?case
  proof (cases "i \<ge> length v")
    case True
    with Suc.prems lt show ?thesis
      by (subst (asm) fillPriceLevel.simps) simp
  next
    case False
    then have len: "i < length v" by simp
    define f where "f = min (min B (getAmount (v ! i))) (ceilShare B0 (getAmount (v ! i)) L)"
    define v1 where "v1 = v[i := setAmount (int32 (getAmount (v ! i) - f)) (v ! i)]"
    define h1 where "h1 = h @ [ProcessedOrder (getID bestBuy) (getID (v ! i)) f]"
    have run: "fillPriceLevel bestBuy L B0 indexNext i v B h =
       (if int32 (B - f) = 0 then (v1, int32 (B - f), h1, False)
        else fillPriceLevel bestBuy L B0 indexNext (i + 1) v1 (int32 (B - f)) h1)"
      unfolding v1_def h1_def f_def fillPriceLevel_step [OF lt len] Let_def ..
    from lt Suc.prems(2) have same: "v1 ! k = v ! k"
      by (simp add: v1_def)
    show ?thesis
    proof (cases "int32 (B - f) = 0")
      case True
      with Suc.prems(1) run have "v' = v1" by simp
      with same show ?thesis by simp
    next
      case nz: False
      with Suc.prems(1) run
      have run1: "fillPriceLevel bestBuy L B0 indexNext (i + 1) v1 (int32 (B - f)) h1 = (v', B', h', st)"
        by simp
      from Suc.hyps(2) have n: "n = indexNext - (i + 1)" by simp
      from Suc.hyps(1) [OF n run1 Suc.prems(2)] same show ?thesis by simp
    qed
  qed
qed

text \<open>The part of the vector from \<open>i\<close> up to \<open>indexNext\<close>.\<close>

lemma level_unroll:
  assumes "i < indexNext" and "indexNext \<le> length v"
  shows "map getAmount (take (indexNext - i) (drop i v))
           = getAmount (v ! i) # map getAmount (take (indexNext - (i + 1)) (drop (i + 1) v))"
proof -
  from assms obtain k where k: "indexNext - i = Suc k" "indexNext - (i + 1) = k"
    by (cases "indexNext - i") auto
  from assms have "drop i v = v ! i # drop (Suc i) v"
    by (simp add: Cons_nth_drop_Suc)
  with k show ?thesis by simp
qed

lemma level_member:
  assumes "indexNext \<le> length v" and "ord \<in> set (take (indexNext - i) (drop i v))"
  shows "\<exists>k. i \<le> k \<and> k < indexNext \<and> ord = v ! k"
proof -
  from assms(2) obtain j where j: "j < length (take (indexNext - i) (drop i v))"
    "ord = take (indexNext - i) (drop i v) ! j"
    by (auto simp: in_set_conv_nth)
  from j(1) assms(1) have "j < indexNext - i" by simp
  with j assms(1) have "i \<le> i + j \<and> i + j < indexNext \<and> ord = v ! (i + j)"
    by simp
  then show ?thesis by blast
qed

lemma totalSellAmount_eq:
  assumes "indexNext \<le> length v"
    and "\<forall>k. i \<le> k \<and> k < indexNext \<longrightarrow> 0 \<le> getAmount (v ! k)"
    and "0 \<le> acc"
    and "acc + sum_list (map getAmount (take (indexNext - i) (drop i v))) < 2147483648"
  shows "totalSellAmount pastEnd v i indexNext acc
           = acc + sum_list (map getAmount (take (indexNext - i) (drop i v)))"
  using assms
proof (induction n \<equiv> "indexNext - i" arbitrary: i acc)
  case 0
  then show ?case by (subst totalSellAmount.simps) simp
next
  case (Suc n)
  then have lt: "i < indexNext" and len: "i < length v" by simp_all
  let ?rest = "take (indexNext - (i + 1)) (drop (i + 1) v)"
  have unroll: "sum_list (map getAmount (take (indexNext - i) (drop i v)))
      = getAmount (v ! i) + sum_list (map getAmount ?rest)"
    using level_unroll [OF lt Suc.prems(1)] by simp
  have "\<forall>ord \<in> set ?rest. 0 \<le> getAmount ord"
  proof
    fix ord assume "ord \<in> set ?rest"
    from level_member [OF Suc.prems(1) this] Suc.prems(2) show "0 \<le> getAmount ord" by auto
  qed
  then have rest: "0 \<le> sum_list (map getAmount ?rest)" by (rule sum_amounts_nonneg)
  from Suc.prems(2) lt have here: "0 \<le> getAmount (v ! i)" by simp
  from here rest Suc.prems(3,4) unroll
  have "- 2147483648 \<le> acc + getAmount (v ! i)" "acc + getAmount (v ! i) < 2147483648"
    by linarith+
  then have wrap: "int32 (acc + getAmount (v ! i)) = acc + getAmount (v ! i)"
    by (rule int32_id)
  from Suc.hyps(2) have n: "n = indexNext - (i + 1)" by simp
  from Suc.prems(2) have nonneg: "\<forall>k. i + 1 \<le> k \<and> k < indexNext \<longrightarrow> 0 \<le> getAmount (v ! k)"
    by simp
  from here Suc.prems(3) have acc: "0 \<le> acc + getAmount (v ! i)" by simp
  from Suc.prems(4) unroll
  have bound: "acc + getAmount (v ! i) + sum_list (map getAmount ?rest) < 2147483648"
    by simp
  from Suc.hyps(1) [OF n Suc.prems(1) nonneg acc bound] lt len unroll wrap
  show ?case
    by (subst totalSellAmount.simps) (simp add: vec_at_def)
qed

section \<open>The allocation within a price level\<close>

lemma fillPriceLevel_fills:
  "levelSafe indexNext i v B B0 L \<Longrightarrow>
   fillPriceLevel bestBuy L B0 indexNext i v B h = (v', B', h', st) \<Longrightarrow>
   \<exists>fills. h' = h @ fills \<and> B' = B - sum_list (map fillAmount fills) \<and>
     map fillAmount fills
       = levelFills_spec floatShare B0 L B (map getAmount (take (indexNext - i) (drop i v))) \<and>
     (st \<longleftrightarrow> indexNext \<le> i \<or> B' \<noteq> 0)"
proof (induction n \<equiv> "indexNext - i" arbitrary: i v B h)
  case 0
  then show ?case
    by (subst (asm) fillPriceLevel.simps) (auto simp: levelSafe_def)
next
  case (Suc n)
  then have lt: "i < indexNext" by simp
  from Suc.prems(1) have bnd: "indexNext \<le> length v" by (simp add: levelSafe_def)
  with lt have len: "i < length v" by simp
  define s where "s = getAmount (v ! i)"
  define f where "f = min B (min (getAmount (v ! i)) (floatShare B0 (getAmount (v ! i)) L))"
  define v1 where "v1 = v[i := setAmount (getAmount (v ! i) - f) (v ! i)]"
  define h1 where "h1 = h @ [ProcessedOrder (getID bestBuy) (getID (v ! i)) f]"
  note stp = fillPriceLevel_safe_step [OF Suc.prems(1) lt f_def]
  have unroll: "fillPriceLevel bestBuy L B0 indexNext i v B h =
     (if B - f = 0 then (v1, B - f, h1, False)
      else fillPriceLevel bestBuy L B0 indexNext (i + 1) v1 (B - f) h1)"
    unfolding v1_def h1_def by (rule stp(1))
  have "drop (i + 1) v1 = drop (i + 1) v"
    by (simp add: v1_def)
  with level_unroll [OF lt bnd]
  have level: "map getAmount (take (indexNext - i) (drop i v))
      = s # map getAmount (take (indexNext - (i + 1)) (drop (i + 1) v1))"
    by (simp add: s_def)
  have spec1: "levelFills_spec floatShare B0 L B (map getAmount (take (indexNext - i) (drop i v)))
      = f # (if B - f = 0 then []
             else levelFills_spec floatShare B0 L (B - f)
                    (map getAmount (take (indexNext - (i + 1)) (drop (i + 1) v1))))"
    unfolding level by (simp add: f_def s_def Let_def)
  let ?r = "ProcessedOrder (getID bestBuy) (getID (v ! i)) f"
  have r: "fillAmount ?r = f" by (simp add: ProcessedOrder_def)
  show ?case
  proof (cases "B - f = 0")
    case True
    with Suc.prems(2) unroll have res: "v' = v1" "B' = B - f" "h' = h1" "\<not> st"
      by simp_all
    have "h' = h @ [?r]" by (simp add: res h1_def)
    moreover have "B' = B - sum_list (map fillAmount [?r])" by (simp add: res r)
    moreover have "map fillAmount [?r]
        = levelFills_spec floatShare B0 L B (map getAmount (take (indexNext - i) (drop i v)))"
      unfolding spec1 using True by (simp add: r)
    moreover have "st \<longleftrightarrow> indexNext \<le> i \<or> B' \<noteq> 0"
      using res True lt by simp
    ultimately show ?thesis by blast
  next
    case nz: False
    with Suc.prems(2) unroll
    have run: "fillPriceLevel bestBuy L B0 indexNext (i + 1) v1 (B - f) h1 = (v', B', h', st)"
      by simp
    from Suc.hyps(2) have n: "n = indexNext - (i + 1)" by simp
    from stp(5) [OF nz] have safe: "levelSafe indexNext (i + 1) v1 (B - f) B0 L"
      unfolding v1_def .
    from Suc.hyps(1) [OF n safe run] obtain fills where fills: "h' = h1 @ fills"
      "B' = B - f - sum_list (map fillAmount fills)"
      "map fillAmount fills = levelFills_spec floatShare B0 L (B - f)
         (map getAmount (take (indexNext - (i + 1)) (drop (i + 1) v1)))"
      "st \<longleftrightarrow> indexNext \<le> i + 1 \<or> B' \<noteq> 0"
      by blast
    have st: "st \<longleftrightarrow> indexNext \<le> i \<or> B' \<noteq> 0"
    proof (cases "indexNext \<le> i + 1")
      case True
      with lt have "indexNext - (i + 1) = 0" by simp
      with fills(3) have "fills = []" by simp
      with fills(2) nz have "B' \<noteq> 0" by simp
      with fills(4) lt show ?thesis by simp
    next
      case False
      with fills(4) lt show ?thesis by simp
    qed
    have "h' = h @ (?r # fills)" by (simp add: fills(1) h1_def)
    moreover have "B' = B - sum_list (map fillAmount (?r # fills))"
      using fills(2) by (simp add: r)
    moreover have "map fillAmount (?r # fills)
        = levelFills_spec floatShare B0 L B (map getAmount (take (indexNext - i) (drop i v)))"
      unfolding spec1 using nz fills(3) by (simp add: r)
    ultimately show ?thesis using st by blast
  qed
qed

lemma levelFills_spec_bounds:
  "0 < B \<Longrightarrow> \<forall>q \<in> set qs. 0 < q \<and> q \<le> L \<Longrightarrow> 0 < B0 \<Longrightarrow> B0 \<le> 2147483583 \<Longrightarrow>
   0 \<le> sum_list (levelFills_spec floatShare B0 L B qs) \<and>
   sum_list (levelFills_spec floatShare B0 L B qs) \<le> B \<and>
   (qs \<noteq> [] \<longrightarrow> 1 \<le> sum_list (levelFills_spec floatShare B0 L B qs))"
proof (induction qs arbitrary: B)
  case Nil
  then show ?case by simp
next
  case (Cons q qs)
  define f where "f = min B (min q (floatShare B0 q L))"
  from Cons.prems have q: "0 < q" "q \<le> L" by simp_all
  from floatShare_bounds [OF Cons.prems(3,4) q] have "1 \<le> floatShare B0 q L" by simp
  with Cons.prems q have f: "1 \<le> f" "f \<le> B" by (simp_all add: f_def)
  have eq: "levelFills_spec floatShare B0 L B (q # qs)
      = f # (if B - f = 0 then [] else levelFills_spec floatShare B0 L (B - f) qs)"
    by (simp add: f_def Let_def)
  show ?case
  proof (cases "B - f = 0")
    case True
    with f show ?thesis unfolding eq by simp
  next
    case False
    with f have "0 < B - f" by simp
    from Cons.IH [OF this] Cons.prems
    have "0 \<le> sum_list (levelFills_spec floatShare B0 L (B - f) qs)"
      "sum_list (levelFills_spec floatShare B0 L (B - f) qs) \<le> B - f"
      by simp_all
    with False f show ?thesis unfolding eq by simp
  qed
qed

section \<open>The loops of matchOrdersProRata on books within the range of int\<close>

lemma level_nth:
  assumes "cur \<le> k" and "k < indexNext" and "indexNext \<le> length v"
  shows "v ! k \<in> set (take (indexNext - cur) (drop cur v))"
proof -
  from assms have "k - cur < length (take (indexNext - cur) (drop cur v))" by simp
  moreover from assms have "take (indexNext - cur) (drop cur v) ! (k - cur) = v ! k" by simp
  ultimately show ?thesis by (metis nth_mem)
qed

lemma sum_amounts_take_drop:
  "sum_list (map getAmount (take n q)) + sum_list (map getAmount (drop n q)) = sum_list (map getAmount q)"
proof -
  have "sum_list (map getAmount (take n q @ drop n q)) = sum_list (map getAmount q)" by simp
  then show ?thesis by (simp only: map_append sum_list_append)
qed

text \<open>
  A price level with positive quantities and a total below \<open>2 ^ 31\<close>: the code's total is
  the sum of the quantities, and the loop that fills the level starts in a safe state.
\<close>

lemma level_safe:
  assumes "indexNext \<le> length v"
    and "\<forall>ord \<in> set (take (indexNext - cur) (drop cur v)). 0 < getAmount ord"
    and "sum_list (map getAmount (take (indexNext - cur) (drop cur v))) < 2147483648"
    and "0 < B" and "B \<le> 2147483583"
  shows "totalSellAmount pastEnd v cur indexNext 0
           = sum_list (map getAmount (take (indexNext - cur) (drop cur v)))"
    and "levelSafe indexNext cur v B B (sum_list (map getAmount (take (indexNext - cur) (drop cur v))))"
proof -
  let ?level = "take (indexNext - cur) (drop cur v)"
  have pos: "0 < getAmount (v ! k)" if "cur \<le> k" "k < indexNext" for k
    using level_nth [OF that assms(1)] assms(2) by blast
  then have nonneg: "\<forall>k. cur \<le> k \<and> k < indexNext \<longrightarrow> 0 \<le> getAmount (v ! k)"
    by (simp add: less_imp_le)
  from assms(3) have "0 + sum_list (map getAmount ?level) < 2147483648" by simp
  from totalSellAmount_eq [OF assms(1) nonneg order_refl this]
  show "totalSellAmount pastEnd v cur indexNext 0 = sum_list (map getAmount ?level)"
    by simp
  from assms(2) have nn: "\<forall>ord \<in> set ?level. 0 \<le> getAmount ord"
    by (simp add: less_imp_le)
  have "getAmount (v ! k) \<le> sum_list (map getAmount ?level)" if "cur \<le> k" "k < indexNext" for k
    using amount_le_sum [OF nn level_nth [OF that assms(1)]] .
  with pos assms(1,3,4,5) show "levelSafe indexNext cur v B B (sum_list (map getAmount ?level))"
    by (simp add: levelSafe_def)
qed

lemma processPriceLevels_safe:
  "\<forall>k. cur \<le> k \<and> k < length v \<longrightarrow> 0 < getAmount (v ! k) \<Longrightarrow>
   sum_list (map getAmount (drop cur v)) < 2147483648 \<Longrightarrow>
   0 < B \<Longrightarrow> B \<le> 2147483583 \<Longrightarrow>
   processPriceLevels pastEnd bestBuy v cur B h st = (v', B', h') \<Longrightarrow>
   levelConserved bestBuy (v, B, h) (v', B', h') \<and> 0 \<le> B' \<and> B' \<le> B \<and>
   (cur < length v \<and> st \<longrightarrow> B' < B)"
proof (induction n \<equiv> "length v - cur" arbitrary: v cur B h st rule: less_induct)
  case less
  show ?case
  proof (cases "cur < length v \<and> st")
    case False
    with less.prems(5) have "(v', B', h') = (v, B, h)"
      by (subst (asm) processPriceLevels.simps) auto
    with False less.prems(3) show ?thesis
      by (auto simp: levelConserved_refl)
  next
    case True
    define nx where "nx = fst (findNextPriceLevel pastEnd v cur cur cur [])"
    define L where "L = totalSellAmount pastEnd v cur nx 0"
    let ?level = "take (nx - cur) (drop cur v)"
    obtain v1 B1 h1 st1 where fl: "fillPriceLevel bestBuy L B nx cur v B h = (v1, B1, h1, st1)"
      by (cases "fillPriceLevel bestBuy L B nx cur v B h") auto
    from True findNextPriceLevel_advances [of cur cur v pastEnd cur "[]"]
    have adv: "cur < nx" by (simp add: nx_def)
    from True findNextPriceLevel_bound [of pastEnd v cur cur cur "[]"]
    have bnd: "nx \<le> length v" by (simp add: nx_def)
    have from_cur: "\<forall>ord \<in> set (drop cur v). 0 < getAmount ord"
    proof
      fix ord assume "ord \<in> set (drop cur v)"
      then obtain j where "j < length v - cur" "ord = v ! (cur + j)"
        by (auto simp: in_set_conv_nth)
      with less.prems(1) show "0 < getAmount ord" by simp
    qed
    then have pos: "\<forall>ord \<in> set ?level. 0 < getAmount ord"
      by (auto dest: in_set_takeD)
    have "\<forall>ord \<in> set (drop (nx - cur) (drop cur v)). 0 \<le> getAmount ord"
      using from_cur by (auto dest: in_set_dropD simp: less_imp_le simp del: drop_drop)
    then have "0 \<le> sum_list (map getAmount (drop (nx - cur) (drop cur v)))"
      by (rule sum_amounts_nonneg)
    with sum_amounts_take_drop [of "nx - cur" "drop cur v"]
    have part: "sum_list (map getAmount ?level) \<le> sum_list (map getAmount (drop cur v))"
      and later: "sum_list (map getAmount (drop (nx - cur) (drop cur v)))
                    \<le> sum_list (map getAmount (drop cur v))"
      using sum_amounts_nonneg [of ?level] pos by (simp_all add: less_imp_le del: drop_drop)
    from part less.prems(2) have tot: "sum_list (map getAmount ?level) < 2147483648" by simp
    have L: "L = sum_list (map getAmount ?level)"
      unfolding L_def using bnd pos tot less.prems(3,4) by (rule level_safe(1))
    have safe: "levelSafe nx cur v B B L"
      unfolding L using bnd pos tot less.prems(3,4) by (rule level_safe(2))
    from fl safe have step: "levelConserved bestBuy (v, B, h) (v1, B1, h1)"
      by (rule fillPriceLevel_conserved [rotated])
    then have len: "length v1 = length v"
      by (auto simp: levelConserved_def)
    from fillPriceLevel_fills [OF safe fl] obtain fills :: "ProcessedOrder list" where fills:
      "B1 = B - sum_list (map fillAmount fills)"
      "map fillAmount fills = levelFills_spec floatShare B L B (map getAmount ?level)"
      "st1 \<longleftrightarrow> nx \<le> cur \<or> B1 \<noteq> 0"
      by blast
    have range: "\<forall>q \<in> set (map getAmount ?level). 0 < q \<and> q \<le> L"
    proof
      fix q assume "q \<in> set (map getAmount ?level)"
      then obtain ord where ord: "ord \<in> set ?level" "q = getAmount ord" by auto
      from level_member [OF bnd ord(1)] obtain k where "cur \<le> k" "k < nx" "ord = v ! k"
        by blast
      with safe ord(2) show "0 < q \<and> q \<le> L" by (simp add: levelSafe_def)
    qed
    have nonempty: "map getAmount ?level \<noteq> []"
      using adv True by simp
    from levelFills_spec_bounds [OF less.prems(3) range less.prems(3,4)] nonempty fills(1,2)
    have B1: "0 \<le> B1" "B1 < B" by simp_all
    have unfold: "processPriceLevels pastEnd bestBuy v cur B h st
        = processPriceLevels pastEnd bestBuy v1 nx B1 h1 st1"
      using True fl
      by (subst processPriceLevels.simps) (simp add: Let_def nx_def [symmetric] L_def [symmetric])
    show ?thesis
    proof (cases st1)
      case False
      then have "processPriceLevels pastEnd bestBuy v1 nx B1 h1 st1 = (v1, B1, h1)"
        by (subst processPriceLevels.simps) simp
      with unfold less.prems(5) have "(v', B', h') = (v1, B1, h1)" by simp
      with step B1 show ?thesis by simp
    next
      case st1: True
      with fills(3) adv B1 have pos1: "0 < B1" by simp
      from B1 less.prems(4) have max1: "B1 \<le> 2147483583" by simp
      have same: "v1 ! k = v ! k" if "nx \<le> k" for k
        using fillPriceLevel_outside [OF fl that] .
      have rest: "\<forall>k. nx \<le> k \<and> k < length v1 \<longrightarrow> 0 < getAmount (v1 ! k)"
        using less.prems(1) adv len same by simp
      have "drop nx v1 = drop nx v"
        using len same by (intro nth_equalityI) simp_all
      moreover from adv have "drop (nx - cur) (drop cur v) = drop nx v" by simp
      ultimately have sum1: "sum_list (map getAmount (drop nx v1)) < 2147483648"
        using later less.prems(2) by simp
      from adv True len have meas: "length v1 - nx < length v - cur"
        by (simp add: diff_less_mono2)
      from unfold less.prems(5)
      have run1: "processPriceLevels pastEnd bestBuy v1 nx B1 h1 st1 = (v', B', h')" by simp
      from meas rest sum1 pos1 max1 run1
      have "levelConserved bestBuy (v1, B1, h1) (v', B', h') \<and> 0 \<le> B' \<and> B' \<le> B1 \<and>
          (nx < length v1 \<and> st1 \<longrightarrow> B' < B1)"
        by (rule less.hyps)
      with step B1 show ?thesis
        by (auto intro: levelConserved_trans)
    qed
  qed
qed

lemma drainMatching_splits:
  "drainMatching bestBuy sells acc = Some (ms, rest) \<Longrightarrow> ms @ rest = acc @ sells"
  by (induction sells arbitrary: acc) (auto split: if_splits)

lemma drainMatching_returns:
  "sells \<noteq> [] \<Longrightarrow>
   \<exists>ms rest. drainMatching bestBuy sells acc = Some (ms, rest) \<and> length acc \<le> length ms \<and>
     (getPrice bestBuy \<ge> getPrice (hd sells) \<longrightarrow> length acc < length ms)"
proof (induction sells arbitrary: acc)
  case Nil
  then show ?case by simp
next
  case (Cons s sells)
  show ?case
  proof (cases "sells = []")
    case True
    then show ?thesis by simp
  next
    case False
    from Cons.IH [OF this, of "acc @ [s]"] show ?thesis
      using False by auto
  qed
qed

lemma residentQty_reAddSells:
  "\<forall>ord \<in> set ms. 0 \<le> getAmount ord \<Longrightarrow>
   residentQty x (reAddSells ms sells) = residentQty x sells + residentQty x ms"
proof (induction ms arbitrary: sells)
  case Nil
  then show ?case by (simp add: residentQty_Nil)
next
  case (Cons m ms)
  then have "0 < getAmount m \<or> getAmount m = 0" by auto
  with Cons show ?case
    by (auto simp: residentQty_Cons residentQty_pq_push)
qed

lemma sum_amounts_reAddSells:
  "\<forall>ord \<in> set ms. 0 \<le> getAmount ord \<Longrightarrow>
   sum_list (map getAmount (reAddSells ms sells))
     = sum_list (map getAmount sells) + sum_list (map getAmount ms)"
proof (induction ms arbitrary: sells)
  case Nil
  then show ?case by simp
next
  case (Cons m ms)
  then have "0 < getAmount m \<or> getAmount m = 0" by auto
  with Cons show ?case
    by (auto simp: sum_amounts_pq_push)
qed

lemma set_reAddSells:
  "set (reAddSells ms sells) = set sells \<union> {ord \<in> set ms. 0 < getAmount ord}"
  by (induction ms arbitrary: sells) (auto simp: set_pq_push)

text \<open>One iteration of the outer loop of \<open>matchOrdersProRata\<close> on a safe book.\<close>

lemma proRata_iteration:
  assumes buys: "m_buyOrders book = bestBuy # bs"
    and drain: "drainMatching bestBuy (m_sellOrders book) [] = Some (ms, rest)"
    and levels: "processPriceLevels pastEnd bestBuy ms 0 (getAmount bestBuy) (m_orderHistory book) True
                   = (ms', B', h')"
    and safe: "safeBook book"
  defines "book1 \<equiv> book\<lparr>m_buyOrders :=
                       (if B' > 0 then pq_push prioritizeMax (setAmount B' bestBuy) bs else bs),
                     m_sellOrders := reAddSells ms' rest, m_orderHistory := h'\<rparr>"
  shows "safeBook book1 \<and> conserved book book1 \<and> (ms \<noteq> [] \<longrightarrow> B' < getAmount bestBuy)"
proof -
  from safe have pos: "positiveBook book"
    and maxb: "\<forall>ord \<in> set (m_buyOrders book). getAmount ord \<le> 2147483583"
    and sums: "sum_list (map getAmount (m_sellOrders book)) < 2147483648"
    by (simp_all add: safeBook_def)
  from drain have split: "m_sellOrders book = ms @ rest"
    using drainMatching_splits by fastforce
  from pos buys have posB: "0 < getAmount bestBuy" and posbs: "\<forall>ord \<in> set bs. 0 < getAmount ord"
    by (simp_all add: positiveBook_def)
  from maxb buys have maxB: "getAmount bestBuy \<le> 2147483583"
    and maxbs: "\<forall>ord \<in> set bs. getAmount ord \<le> 2147483583"
    by simp_all
  from pos split have posms: "\<forall>ord \<in> set ms. 0 < getAmount ord"
    and posrest: "\<forall>ord \<in> set rest. 0 < getAmount ord"
    by (simp_all add: positiveBook_def)
  from posrest have "0 \<le> sum_list (map getAmount rest)"
    by (intro sum_amounts_nonneg) (simp add: less_imp_le)
  with sums split have summs: "sum_list (map getAmount (drop 0 ms)) < 2147483648"
    by simp
  from posms have idx: "\<forall>k. 0 \<le> k \<and> k < length ms \<longrightarrow> 0 < getAmount (ms ! k)"
    by simp
  from processPriceLevels_safe [OF idx summs posB maxB levels]
  have lc: "levelConserved bestBuy (ms, getAmount bestBuy, m_orderHistory book) (ms', B', h')"
    and B': "0 \<le> B'" "B' \<le> getAmount bestBuy"
    and less: "ms \<noteq> [] \<longrightarrow> B' < getAmount bestBuy"
    by simp_all
  from lc obtain fills where f: "h' = m_orderHistory book @ fills"
    "\<And>x. residentQty x ms' + filledSell x fills = residentQty x ms"
    "sum_list (map getAmount ms') + sum_list (map fillAmount fills) = sum_list (map getAmount ms)"
    "B' + sum_list (map fillAmount fills) = getAmount bestBuy"
    "\<forall>r \<in> set fills. buyID r = getID bestBuy"
    "(\<forall>ord \<in> set ms. 0 \<le> getAmount ord) \<longrightarrow> (\<forall>ord \<in> set ms'. 0 \<le> getAmount ord)"
    unfolding levelConserved_def by auto
  from f(6) posms have nonneg: "\<forall>ord \<in> set ms'. 0 \<le> getAmount ord"
    by fastforce
  have "positiveBook book1"
    using posbs posrest
    by (auto simp: positiveBook_def book1_def set_pq_push set_reAddSells getAmount_def setAmount_def)
  moreover have "\<forall>ord \<in> set (m_buyOrders book1). getAmount ord \<le> 2147483583"
    using maxbs maxB B'(2)
    by (auto simp: book1_def set_pq_push getAmount_def setAmount_def)
  moreover have "sum_list (map getAmount (m_sellOrders book1)) < 2147483648"
  proof -
    from f(3,4) B'(2) have "sum_list (map getAmount ms') \<le> sum_list (map getAmount ms)"
      by linarith
    with sums split show ?thesis
      by (simp add: book1_def sum_amounts_reAddSells [OF nonneg])
  qed
  moreover have "residentQty x (m_buyOrders book1) + filledBuy x fills = residentQty x (m_buyOrders book)" for x
    using B'(1) f(4) filledBuy_same_buyer [OF f(5), of x]
    by (auto simp: book1_def buys residentQty_pq_push residentQty_Cons getID_setAmount)
       (simp_all add: getAmount_def setAmount_def)
  moreover have "residentQty x (m_sellOrders book1) + filledSell x fills = residentQty x (m_sellOrders book)" for x
    using f(2) [of x] by (simp add: book1_def split residentQty_reAddSells [OF nonneg] residentQty_append)
  moreover have "m_orderHistory book1 = m_orderHistory book @ fills"
    by (simp add: book1_def f(1))
  ultimately show ?thesis
    unfolding conserved_def safeBook_def using less by auto
qed

lemma matchOrdersProRata_invariant:
  "matchOrdersProRata pastEnd book = Some book' \<Longrightarrow> safeBook book \<Longrightarrow>
   safeBook book' \<and> conserved book book'"
proof (induction rule: matchOrdersProRata.raw_induct [rotated, consumes 1, case_names step])
  case (step loop pastEnd book book')
  show ?case
  proof (cases "m_buyOrders book")
    case Nil
    with step.hyps step.prems show ?thesis by (simp add: conserved_refl)
  next
    case buys: (Cons bestBuy bs)
    show ?thesis
    proof (cases "m_sellOrders book")
      case Nil
      with buys step.hyps step.prems show ?thesis by (simp add: conserved_refl)
    next
      case sells: (Cons topSell others)
      show ?thesis
      proof (cases "getPrice bestBuy < getPrice topSell")
        case True
        with buys sells step.hyps step.prems show ?thesis by (simp add: conserved_refl)
      next
        case False
        with buys sells step.hyps
        obtain ms rest where drain: "drainMatching bestBuy (m_sellOrders book) [] = Some (ms, rest)"
          by (cases "drainMatching bestBuy (m_sellOrders book) []") auto
        obtain ms' B' h' where levels:
          "processPriceLevels pastEnd bestBuy ms 0 (getAmount bestBuy) (m_orderHistory book) True
             = (ms', B', h')"
          by (cases "processPriceLevels pastEnd bestBuy ms 0 (getAmount bestBuy) (m_orderHistory book) True")
             auto
        define book1 where "book1 = book\<lparr>m_buyOrders :=
                       (if B' > 0 then pq_push prioritizeMax (setAmount B' bestBuy) bs else bs),
                     m_sellOrders := reAddSells ms' rest, m_orderHistory := h'\<rparr>"
        from False buys sells drain levels step.hyps have "loop pastEnd book1 = Some book'"
          by (simp add: book1_def)
        moreover from proRata_iteration [OF buys drain levels step.prems]
        have step: "safeBook book1 \<and> conserved book book1"
          by (simp add: book1_def)
        ultimately have "safeBook book' \<and> conserved book1 book'"
          using step.IH by blast
        with step show ?thesis by (blast intro: conserved_trans)
      qed
    qed
  qed
qed

text \<open>On a safe book the outer loop ends: every iteration takes quantity off the buy queue.\<close>

lemma matchOrdersProRata_returns:
  "safeBook book \<Longrightarrow> \<exists>book'. matchOrdersProRata pastEnd book = Some book'"
proof (induction n \<equiv> "nat (sum_list (map getAmount (m_buyOrders book)))" arbitrary: book
    rule: less_induct)
  case less
  show ?case
  proof (cases "m_buyOrders book")
    case Nil
    then show ?thesis by (subst matchOrdersProRata.simps) simp
  next
    case buys: (Cons bestBuy bs)
    show ?thesis
    proof (cases "m_sellOrders book")
      case Nil
      with buys show ?thesis by (subst matchOrdersProRata.simps) simp
    next
      case sells: (Cons topSell others)
      show ?thesis
      proof (cases "getPrice bestBuy < getPrice topSell")
        case True
        with buys sells show ?thesis by (subst matchOrdersProRata.simps) simp
      next
        case False
        from drainMatching_returns [of "m_sellOrders book" bestBuy "[]"] sells False
        obtain ms rest where drain: "drainMatching bestBuy (m_sellOrders book) [] = Some (ms, rest)"
          and ms: "ms \<noteq> []"
          by auto
        obtain ms' B' h' where levels:
          "processPriceLevels pastEnd bestBuy ms 0 (getAmount bestBuy) (m_orderHistory book) True
             = (ms', B', h')"
          by (cases "processPriceLevels pastEnd bestBuy ms 0 (getAmount bestBuy) (m_orderHistory book) True")
             auto
        define book1 where "book1 = book\<lparr>m_buyOrders :=
                       (if B' > 0 then pq_push prioritizeMax (setAmount B' bestBuy) bs else bs),
                     m_sellOrders := reAddSells ms' rest, m_orderHistory := h'\<rparr>"
        from proRata_iteration [OF buys drain levels less.prems] ms
        have safe1: "safeBook book1" and B': "B' < getAmount bestBuy"
          by (simp_all add: book1_def)
        from less.prems buys have posB: "0 < getAmount bestBuy"
          and posbs: "\<forall>ord \<in> set bs. 0 \<le> getAmount ord"
          by (auto simp: safeBook_def positiveBook_def less_imp_le)
        have "sum_list (map getAmount (m_buyOrders book1)) < sum_list (map getAmount (m_buyOrders book))"
          using B' posB by (simp add: book1_def buys sum_amounts_pq_push getAmount_def setAmount_def)
        moreover have "0 < sum_list (map getAmount (m_buyOrders book))"
          using posB sum_amounts_nonneg [OF posbs] by (simp add: buys)
        ultimately have "nat (sum_list (map getAmount (m_buyOrders book1)))
            < nat (sum_list (map getAmount (m_buyOrders book)))"
          by simp
        from less.hyps [OF this safe1] obtain book' where "matchOrdersProRata pastEnd book1 = Some book'"
          by blast
        moreover have "matchOrdersProRata pastEnd book = matchOrdersProRata pastEnd book1"
          using False buys sells drain levels
          by (subst matchOrdersProRata.simps) (simp add: book1_def)
        ultimately show ?thesis by simp
      qed
    qed
  qed
qed

text \<open>
  Whatever the quantities, a pass of \<open>matchOrdersProRata\<close> that ends on a book with
  positive quantities leaves only positive quantities: it puts an order back only where its
  quantity is positive.
\<close>

lemma matchOrdersProRata_positive:
  "matchOrdersProRata pastEnd book = Some book' \<Longrightarrow> positiveBook book \<Longrightarrow> positiveBook book'"
proof (induction rule: matchOrdersProRata.raw_induct [rotated, consumes 1, case_names step])
  case (step loop pastEnd book book')
  show ?case
  proof (cases "m_buyOrders book")
    case Nil
    with step.hyps step.prems show ?thesis by simp
  next
    case buys: (Cons bestBuy bs)
    show ?thesis
    proof (cases "m_sellOrders book")
      case Nil
      with buys step.hyps step.prems show ?thesis by simp
    next
      case sells: (Cons topSell others)
      show ?thesis
      proof (cases "getPrice bestBuy < getPrice topSell")
        case True
        with buys sells step.hyps step.prems show ?thesis by simp
      next
        case False
        with buys sells step.hyps
        obtain ms rest where drain: "drainMatching bestBuy (m_sellOrders book) [] = Some (ms, rest)"
          by (cases "drainMatching bestBuy (m_sellOrders book) []") auto
        obtain ms' B' h' where levels:
          "processPriceLevels pastEnd bestBuy ms 0 (getAmount bestBuy) (m_orderHistory book) True
             = (ms', B', h')"
          by (cases "processPriceLevels pastEnd bestBuy ms 0 (getAmount bestBuy) (m_orderHistory book) True")
             auto
        define book1 where "book1 = book\<lparr>m_buyOrders :=
                       (if B' > 0 then pq_push prioritizeMax (setAmount B' bestBuy) bs else bs),
                     m_sellOrders := reAddSells ms' rest, m_orderHistory := h'\<rparr>"
        from False buys sells drain levels step.hyps have run: "loop pastEnd book1 = Some book'"
          by (simp add: book1_def)
        from drain have "m_sellOrders book = ms @ rest"
          using drainMatching_splits by fastforce
        with step.prems buys have "positiveBook book1"
          by (auto simp: positiveBook_def book1_def set_pq_push set_reAddSells getAmount_def setAmount_def)
        with run show ?thesis by (rule step.IH)
      qed
    qed
  qed
qed

section \<open>matchOrdersFIFO on books within the range of int\<close>

lemma fifoIteration_conserved:
  assumes "m_buyOrders book = bestBuy # buys" and "m_sellOrders book = bestSell # sells"
  shows "conserved book (fifoIteration_spec bestBuy buys bestSell sells book)"
proof -
  define qty where "qty = min (getAmount bestBuy) (getAmount bestSell)"
  let ?fills = "[ProcessedOrder (getID bestBuy) (getID bestSell) qty]"
  let ?book' = "fifoIteration_spec bestBuy buys bestSell sells book"
  have "m_orderHistory ?book' = m_orderHistory book @ ?fills"
    by (simp add: fifoIteration_spec_def Let_def qty_def)
  moreover have "residentQty x (m_buyOrders ?book') + filledBuy x ?fills = residentQty x (m_buyOrders book)" for x
    using assms
    by (auto simp: fifoIteration_spec_def Let_def qty_def residentQty_pq_push residentQty_Cons
        getID_setAmount filledBuy_def ProcessedOrder_def min_def)
       (simp_all add: getAmount_def setAmount_def)
  moreover have "residentQty x (m_sellOrders ?book') + filledSell x ?fills = residentQty x (m_sellOrders book)" for x
    using assms
    by (auto simp: fifoIteration_spec_def Let_def qty_def residentQty_pq_push residentQty_Cons
        getID_setAmount filledSell_def ProcessedOrder_def min_def)
       (simp_all add: getAmount_def setAmount_def)
  ultimately show ?thesis
    unfolding conserved_def by blast
qed

lemma fifoIteration_positive:
  assumes "m_buyOrders book = bestBuy # buys" and "m_sellOrders book = bestSell # sells"
    and "positiveBook book" and "intBook book"
  shows "positiveBook (fifoIteration_spec bestBuy buys bestSell sells book) \<and>
         intBook (fifoIteration_spec bestBuy buys bestSell sells book)"
  using assms
  by (auto simp: positiveBook_def intBook_def fifoIteration_spec_def Let_def set_pq_push
      getAmount_def setAmount_def)

lemma matchOrdersFIFO_invariant:
  "positiveBook book \<Longrightarrow> intBook book \<Longrightarrow>
   conserved book (matchOrdersFIFO book) \<and> positiveBook (matchOrdersFIFO book) \<and>
   intBook (matchOrdersFIFO book)"
proof (induction book rule: matchOrdersFIFO.induct)
  case (1 book)
  show ?case
  proof (cases "m_buyOrders book")
    case Nil
    with "1.prems" show ?thesis
      by (subst (1 2 3) matchOrdersFIFO.simps) (simp add: conserved_refl)
  next
    case buys: (Cons bestBuy bs)
    show ?thesis
    proof (cases "m_sellOrders book")
      case Nil
      with buys "1.prems" show ?thesis
        by (subst (1 2 3) matchOrdersFIFO.simps) (simp add: conserved_refl)
    next
      case sells: (Cons bestSell ss)
      show ?thesis
      proof (cases "getPrice bestBuy \<ge> getPrice bestSell")
        case True
        let ?book1 = "fifoIteration_spec bestBuy bs bestSell ss book"
        from "1.prems" buys sells
        have "0 < getAmount bestBuy" "getAmount bestBuy < 2147483648"
          "0 < getAmount bestSell" "getAmount bestSell < 2147483648"
          by (simp_all add: positiveBook_def intBook_def)
        then have "\<bar>getAmount bestBuy - getAmount bestSell\<bar> < 2147483648" by linarith
        then have diff: "\<bar>getAmount bestBuy - getAmount bestSell\<bar> < 2 ^ 31" by simp
        note body = fifoTrade_spec [OF diff, where book = book and buys = bs and sells = ss]
        have eq: "matchOrdersFIFO book = matchOrdersFIFO ?book1"
          using buys sells True by (subst matchOrdersFIFO.simps) (simp add: body)
        from fifoIteration_positive [OF buys sells "1.prems"]
        have inv1: "positiveBook ?book1" "intBook ?book1" by simp_all
        from "1.IH" [OF buys sells True] inv1
        have ih: "conserved ?book1 (matchOrdersFIFO ?book1) \<and> positiveBook (matchOrdersFIFO ?book1) \<and>
            intBook (matchOrdersFIFO ?book1)"
          by (simp add: body)
        from fifoIteration_conserved [OF buys sells] ih
        show ?thesis
          unfolding eq by (blast intro: conserved_trans)
      next
        case False
        have eq: "matchOrdersFIFO book = book\<lparr>m_buyOrders := pq_push prioritizeMax bestBuy bs,
              m_sellOrders := pq_push prioritizeMin bestSell ss\<rparr>"
          using buys sells False by (subst matchOrdersFIFO.simps) simp
        have "conserved book (book\<lparr>m_buyOrders := pq_push prioritizeMax bestBuy bs,
              m_sellOrders := pq_push prioritizeMin bestSell ss\<rparr>)"
          unfolding conserved_def using buys sells
          by (intro exI [of _ "[]"]) (simp add: residentQty_pq_push residentQty_Cons filledBuy_def filledSell_def)
        moreover have "positiveBook (book\<lparr>m_buyOrders := pq_push prioritizeMax bestBuy bs,
              m_sellOrders := pq_push prioritizeMin bestSell ss\<rparr>)"
          using "1.prems"(1) buys sells by (auto simp: positiveBook_def set_pq_push)
        moreover have "intBook (book\<lparr>m_buyOrders := pq_push prioritizeMax bestBuy bs,
              m_sellOrders := pq_push prioritizeMin bestSell ss\<rparr>)"
          using "1.prems"(2) buys sells by (auto simp: intBook_def set_pq_push)
        ultimately show ?thesis
          unfolding eq by blast
      qed
    qed
  qed
qed

section \<open>The scenarios\<close>

lemma scenarioD_run: "matchOrdersProRata staleOrder scenarioD = Some scenarioD_after"
  by code_simp

lemma scenarioE_run: "matchOrdersProRata staleOrder scenarioE = Some scenarioE_after"
  by code_simp

lemma largeBook_run: "matchOrdersProRata staleOrder largeBook = Some largeBook_after"
  by code_simp

lemma scenarioD_safe: "safeBook scenarioD"
  by code_simp

lemma scenarioD_positive: "positiveBook scenarioD"
  by code_simp

lemma scenarioD_int: "intBook scenarioD"
  by code_simp

lemma largeBook_positive: "positiveBook largeBook \<and> intBook largeBook"
  by code_simp

lemma newFills_append: "newFills h (h @ fills) = fills"
  by (simp add: newFills_def)

section \<open>The fills of a price level\<close>

text \<open>
  C4, as the code has it. One round of the loop over the price levels, from the index
  \<open>curIndex\<close> with the buy quantity \<open>B\<close>: the level is the part of \<open>matchingOrders\<close> up
  to the index that the scan finds, and \<open>B0\<close> is \<open>B\<close>. The quantities of the level are
  positive with a sum below \<open>2 ^ 31\<close>, and \<open>B\<close> is positive and at most 2147483583, so
  that no computation leaves the range of \<open>int\<close>. Then the total \<open>L\<close> that the code
  computes is the sum of the level's quantities, and the fills recorded are, in the list's
  order, those of the specification's allocation in which the share of an order is
  \<open>floatShare\<close>: the ceiling of the single-precision product of \<open>B0\<close> with the
  single-precision quotient of the order's quantity by \<open>L\<close>. The buy quantity left is \<open>B\<close>
  minus the fills. When it has reached 0 the loop ends with this level: no further order
  and no further level is processed.
\<close>

theorem proRata_level_fills:
  assumes "curIndex < length v"
    and "indexNext = fst (findNextPriceLevel pastEnd v curIndex curIndex curIndex [])"
    and "level = map getAmount (take (indexNext - curIndex) (drop curIndex v))"
    and "\<forall>q \<in> set level. 0 < q"
    and "sum_list level < 2 ^ 31"
    and "0 < B" and "B \<le> 2147483583"
    and "fillPriceLevel bestBuy (totalSellAmount pastEnd v curIndex indexNext 0) B indexNext curIndex
           v B h = (v', B', h', still)"
  shows "totalSellAmount pastEnd v curIndex indexNext 0 = sum_list level \<and>
         processPriceLevels pastEnd bestBuy v curIndex B h True
           = processPriceLevels pastEnd bestBuy v' indexNext B' h' still \<and>
         map fillAmount (newFills h h') = levelFills_spec floatShare B (sum_list level) B level \<and>
         B' = B - sum_list (map fillAmount (newFills h h')) \<and>
         (still \<longleftrightarrow> B' \<noteq> 0) \<and>
         (B' = 0 \<longrightarrow>
            processPriceLevels pastEnd bestBuy v curIndex B h True = (v', B', h'))"
proof -
  from assms(1,2) findNextPriceLevel_advances [of curIndex curIndex v pastEnd curIndex "[]"]
  have adv: "curIndex < indexNext" by simp
  from assms(1,2) findNextPriceLevel_bound [of pastEnd v curIndex curIndex curIndex "[]"]
  have bnd: "indexNext \<le> length v" by simp
  from assms(3,4) have pos: "\<forall>ord \<in> set (take (indexNext - curIndex) (drop curIndex v)). 0 < getAmount ord"
    by simp
  from assms(3,5) have tot: "sum_list (map getAmount (take (indexNext - curIndex) (drop curIndex v))) < 2147483648"
    by simp
  have total: "totalSellAmount pastEnd v curIndex indexNext 0 = sum_list level"
    unfolding assms(3) using bnd pos tot assms(6,7) by (rule level_safe(1))
  have safe: "levelSafe indexNext curIndex v B B (sum_list level)"
    unfolding assms(3) using bnd pos tot assms(6,7) by (rule level_safe(2))
  from assms(8) have run: "fillPriceLevel bestBuy (sum_list level) B indexNext curIndex v B h
      = (v', B', h', still)"
    by (simp only: total)
  have unfold: "processPriceLevels pastEnd bestBuy v curIndex B h True
      = processPriceLevels pastEnd bestBuy v' indexNext B' h' still"
    using assms(1,8)
    by (subst processPriceLevels.simps) (simp add: Let_def assms(2) [symmetric])
  from fillPriceLevel_fills [OF safe run] obtain fills :: "ProcessedOrder list"
    where fills: "h' = h @ fills"
    "B' = B - sum_list (map fillAmount fills)"
    "map fillAmount fills = levelFills_spec floatShare B (sum_list level) B level"
    "still \<longleftrightarrow> indexNext \<le> curIndex \<or> B' \<noteq> 0"
    unfolding assms(3) by blast
  from fills(4) adv have still: "still \<longleftrightarrow> B' \<noteq> 0" by simp
  have "processPriceLevels pastEnd bestBuy v' indexNext B' h' False = (v', B', h')"
    by (subst processPriceLevels.simps) simp
  with unfold still have stop: "processPriceLevels pastEnd bestBuy v curIndex B h True = (v', B', h')"
    if "B' = 0"
    using that by simp
  from total unfold fills(1,2,3) still stop show ?thesis
    by (simp add: newFills_append)
qed

theorem proRata_level_fills_witness:
  "(0::nat) < length (m_sellOrders scenarioD) \<and>
   fst (findNextPriceLevel staleOrder (m_sellOrders scenarioD) 0 0 0 []) = 2 \<and>
   map getAmount (take (2 - 0) (drop 0 (m_sellOrders scenarioD))) = [30, 10] \<and>
   sum_list [30, 10] < (2 ^ 31 :: int) \<and>
   totalSellAmount staleOrder (m_sellOrders scenarioD) 0 2 0 = sum_list [30, 10] \<and>
   fillPriceLevel (Order ''T'' 1 False True 10 900 10)
       (totalSellAmount staleOrder (m_sellOrders scenarioD) 0 2 0) 10 2 0
       (m_sellOrders scenarioD) 10 []
     = (m_sellOrders scenarioD_after, 0, m_orderHistory scenarioD_after, False) \<and>
   map fillAmount (newFills [] (m_orderHistory scenarioD_after))
     = levelFills_spec floatShare 10 (sum_list [30, 10]) 10 [30, 10] \<and>
   levelFills_spec floatShare 10 40 10 [30, 10] = [8, 2] \<and>
   processPriceLevels staleOrder (Order ''T'' 1 False True 10 900 10) (m_sellOrders scenarioD) 0 10 [] True
     = (m_sellOrders scenarioD_after, 0, m_orderHistory scenarioD_after)"
proof -
  have len: "(0::nat) < length (m_sellOrders scenarioD)"
    by code_simp
  have nx: "2 = fst (findNextPriceLevel staleOrder (m_sellOrders scenarioD) 0 0 0 [])"
    by code_simp
  have level: "[30, 10] = map getAmount (take (2 - 0) (drop 0 (m_sellOrders scenarioD)))"
    by code_simp
  have pos: "\<forall>q \<in> set [30, 10 :: int]. 0 < q"
    by simp
  have total: "sum_list [30, 10] < (2 ^ 31 :: int)"
    by simp
  have B: "(0::int) < 10" "(10::int) \<le> 2147483583"
    by simp_all
  have run: "fillPriceLevel (Order ''T'' 1 False True 10 900 10)
       (totalSellAmount staleOrder (m_sellOrders scenarioD) 0 2 0) 10 2 0
       (m_sellOrders scenarioD) 10 []
     = (m_sellOrders scenarioD_after, 0, m_orderHistory scenarioD_after, False)"
    by code_simp
  have spec: "levelFills_spec floatShare 10 40 10 [30, 10] = [8, 2]"
    by code_simp
  note r = proRata_level_fills [OF len nx level pos total B run]
  from r have tot: "totalSellAmount staleOrder (m_sellOrders scenarioD) 0 2 0 = sum_list [30, 10]"
    by blast
  from r have fills: "map fillAmount (newFills [] (m_orderHistory scenarioD_after))
     = levelFills_spec floatShare 10 (sum_list [30, 10]) 10 [30, 10]"
    by blast
  from r have stop: "processPriceLevels staleOrder (Order ''T'' 1 False True 10 900 10)
       (m_sellOrders scenarioD) 0 10 [] True
     = (m_sellOrders scenarioD_after, 0, m_orderHistory scenarioD_after)"
    by blast
  from len nx [symmetric] level [symmetric] total tot run fills spec stop
  show ?thesis by blast
qed

text \<open>
  The claim C4 itself, with the share in exact arithmetic, fails: for a buy order of 50
  against sell orders of 30 and 70 at its price, the first recorded fill is 16, and
  \<open>min(50, 30, ceil(50 * 30 / 100))\<close> is 15. (The quotient 30 / 100 rounds to the float
  above 0.3, and 50 times that float rounds to the float above 15.)
\<close>

theorem proRata_exact_share_counterexample:
  "matchOrdersProRata staleOrder scenarioE = Some scenarioE_after \<and>
   map fillAmount (m_orderHistory scenarioE_after) = [16, 34] \<and>
   min 50 (min 30 (exactShare 50 30 100)) = 15 \<and>
   levelFills_spec exactShare 50 100 50 [30, 70] = [15, 35]"
proof -
  have "map fillAmount (m_orderHistory scenarioE_after) = [16, 34]"
    by (simp add: scenarioE_after_def)
  moreover have "exactShare 50 30 100 = 15"
    by (simp add: exactShare_def)
  moreover have "exactShare 50 70 100 = 35"
    by (simp add: exactShare_def)
  ultimately show ?thesis
    using scenarioE_run by (simp add: Let_def)
qed

section \<open>Conservation of quantity by the matching passes\<close>

text \<open>
  Where the identifiers of a queue are distinct, the quantity resident under the identifier
  of a resident order is the quantity of that order.
\<close>

lemma residentQty_unique:
  "distinct (map getID q) \<Longrightarrow> ord \<in> set q \<Longrightarrow> residentQty (getID ord) q = getAmount ord"
proof (induction q)
  case Nil
  then show ?case by simp
next
  case (Cons a q)
  show ?case
  proof (cases "ord = a")
    case True
    from Cons.prems(1) have "getID a \<notin> getID ` set q" by simp
    then have "filter (\<lambda>o'. getID o' = getID a) q = []"
      unfolding filter_empty_conv by (metis imageI)
    with True show ?thesis by (simp add: residentQty_def)
  next
    case False
    with Cons.prems have "ord \<in> set q" by simp
    moreover from this Cons.prems(1) have "getID a \<noteq> getID ord"
      by (metis distinct.simps(2) imageI list.simps(9) set_map)
    ultimately have "ord \<in> set q" "getID a \<noteq> getID ord" .
    with Cons show ?thesis by (simp add: residentQty_Cons)
  qed
qed

text \<open>
  C1, as the code has it: a matching pass neither creates nor destroys quantity as long
  as no computation leaves the range of \<open>int\<close>. The pass only appends to the history. For
  every identifier (the history names an order by nothing else), on the buy side and on
  the sell side, the quantity resident under it after the pass plus the quantity of the
  fills that the pass records against it is the quantity resident under it before the
  pass. This holds for \<open>matchOrdersFIFO\<close> on every book with positive quantities of the type
  \<open>int\<close>, and for \<open>matchOrdersProRata\<close> on every safe book (positive quantities, buy
  quantities at most 2147483583, total sell quantity below \<open>2 ^ 31\<close>), on which the pass
  ends with a book.
\<close>

theorem quantity_conservation:
  "(positiveBook book \<and> intBook book \<longrightarrow>
    take (length (m_orderHistory book)) (m_orderHistory (matchOrdersFIFO book)) = m_orderHistory book \<and>
    residentQty x (m_buyOrders (matchOrdersFIFO book))
      + filledBuy x (newFills (m_orderHistory book) (m_orderHistory (matchOrdersFIFO book)))
      = residentQty x (m_buyOrders book) \<and>
    residentQty x (m_sellOrders (matchOrdersFIFO book))
      + filledSell x (newFills (m_orderHistory book) (m_orderHistory (matchOrdersFIFO book)))
      = residentQty x (m_sellOrders book)) \<and>
   (safeBook book \<longrightarrow>
    (\<exists>book'. matchOrdersProRata pastEnd book = Some book' \<and>
       take (length (m_orderHistory book)) (m_orderHistory book') = m_orderHistory book \<and>
       residentQty x (m_buyOrders book')
         + filledBuy x (newFills (m_orderHistory book) (m_orderHistory book'))
         = residentQty x (m_buyOrders book) \<and>
       residentQty x (m_sellOrders book')
         + filledSell x (newFills (m_orderHistory book) (m_orderHistory book'))
         = residentQty x (m_sellOrders book)))"
proof -
  have use: "take (length (m_orderHistory a)) (m_orderHistory b) = m_orderHistory a \<and>
    residentQty x (m_buyOrders b)
      + filledBuy x (newFills (m_orderHistory a) (m_orderHistory b)) = residentQty x (m_buyOrders a) \<and>
    residentQty x (m_sellOrders b)
      + filledSell x (newFills (m_orderHistory a) (m_orderHistory b)) = residentQty x (m_sellOrders a)"
    if "conserved a b" for a b
    using that unfolding conserved_def by (auto simp: newFills_append)
  have "conserved book (matchOrdersFIFO book)" if "positiveBook book" "intBook book"
    using matchOrdersFIFO_invariant [OF that] by blast
  moreover have "\<exists>book'. matchOrdersProRata pastEnd book = Some book' \<and> conserved book book'"
    if "safeBook book"
  proof -
    from matchOrdersProRata_returns [OF that] obtain book'
      where "matchOrdersProRata pastEnd book = Some book'" by blast
    with matchOrdersProRata_invariant [OF this that] show ?thesis by blast
  qed
  ultimately show ?thesis
    using use by blast
qed

theorem quantity_conservation_witness:
  "positiveBook scenarioD \<and> intBook scenarioD \<and> safeBook scenarioD \<and>
   matchOrdersProRata staleOrder scenarioD = Some scenarioD_after \<and>
   residentQty 2 (m_sellOrders scenarioD_after)
     + filledSell 2 (newFills (m_orderHistory scenarioD) (m_orderHistory scenarioD_after))
     = residentQty 2 (m_sellOrders scenarioD) \<and>
   residentQty 2 (m_sellOrders (matchOrdersFIFO scenarioD))
     + filledSell 2 (newFills (m_orderHistory scenarioD) (m_orderHistory (matchOrdersFIFO scenarioD)))
     = residentQty 2 (m_sellOrders scenarioD) \<and>
   residentQty 2 (m_sellOrders scenarioD) = 30 \<and>
   residentQty 2 (m_sellOrders scenarioD_after) = 22 \<and>
   residentQty 1 (m_buyOrders scenarioD) = 10 \<and>
   residentQty 1 (m_buyOrders scenarioD_after) = 0 \<and>
   filledBuy 1 (newFills (m_orderHistory scenarioD) (m_orderHistory scenarioD_after)) = 10"
proof -
  have vals: "residentQty 2 (m_sellOrders scenarioD) = 30"
    "residentQty 2 (m_sellOrders scenarioD_after) = 22"
    "residentQty 1 (m_buyOrders scenarioD) = 10"
    "residentQty 1 (m_buyOrders scenarioD_after) = 0"
    by code_simp+
  from quantity_conservation [where x = 2 and book = scenarioD and pastEnd = staleOrder]
    quantity_conservation [where x = 1 and book = scenarioD and pastEnd = staleOrder]
    scenarioD_positive scenarioD_int scenarioD_safe scenarioD_run vals
  show ?thesis by simp
qed

text \<open>
  The claim C1 itself, for every order and every pass, fails: a book with one buy and one
  sell order of 2147483647 at one price has positive quantities. The float of 2147483647 is
  \<open>2 ^ 31\<close>, the share is \<open>2 ^ 31\<close>, its conversion to \<open>int\<close> gives -2147483648, and that is
  the fill that \<open>matchOrdersProRata\<close> records; both quantities become -1 and both orders
  are dropped. So the buy order 1 had 2147483647, nothing of it is resident after the
  pass, and the fills recorded against it amount to -2147483648.
\<close>

theorem quantity_conservation_counterexample:
  "positiveBook largeBook \<and> intBook largeBook \<and>
   matchOrdersProRata staleOrder largeBook = Some largeBook_after \<and>
   residentQty 1 (m_buyOrders largeBook) = 2147483647 \<and>
   residentQty 1 (m_buyOrders largeBook_after) = 0 \<and>
   filledBuy 1 (newFills (m_orderHistory largeBook) (m_orderHistory largeBook_after)) = - 2147483648 \<and>
   residentQty 1 (m_buyOrders largeBook_after)
     + filledBuy 1 (newFills (m_orderHistory largeBook) (m_orderHistory largeBook_after))
     \<noteq> residentQty 1 (m_buyOrders largeBook)"
proof -
  have vals: "residentQty 1 (m_buyOrders largeBook) = 2147483647"
    "residentQty 1 (m_buyOrders largeBook_after) = 0"
    "filledBuy 1 (newFills (m_orderHistory largeBook) (m_orderHistory largeBook_after)) = - 2147483648"
    by code_simp+
  with largeBook_positive largeBook_run show ?thesis by simp
qed

section \<open>A book with positive quantities on which matchOrdersProRata does not end\<close>

text \<open>
  On \<open>loopBook\<close> the total of the price level wraps around to \<open>- 2 ^ 31\<close>, both shares
  are \<open>(int)std::ceil(-0.5)\<close>, which is 0, and both fills are 0. An iteration of the outer
  loop appends two records with quantity 0 to the history and leaves both queues as they
  were, so the loop does not end.
\<close>

lemma loopBook_queues:
  "m_buyOrders loopBook = [Order ''T'' 1 False True 10 900 1]"
  "m_sellOrders loopBook
     = [Order ''T'' 2 False False 10 800 1073741824, Order ''T'' 3 False False 10 801 1073741824]"
  by code_simp+

lemma loopBook_share: "ceilShare 1 1073741824 (- 2147483648) = 0"
  by code_simp

lemma loopBook_next:
  "fst (findNextPriceLevel pastEnd
     [Order ''T'' 2 False False 10 800 1073741824, Order ''T'' 3 False False 10 801 1073741824] 0 0 0 []) = 2"
  by (simp add: findNextPriceLevel.simps vec_at_def Let_def getPrice_def Order_def)

lemma loopBook_total:
  "totalSellAmount pastEnd
     [Order ''T'' 2 False False 10 800 1073741824, Order ''T'' 3 False False 10 801 1073741824] 0 2 0
     = - 2147483648"
  by (simp add: totalSellAmount.simps vec_at_def getAmount_def Order_def int32_def)

lemma loopBook_fill:
  "fillPriceLevel (Order ''T'' 1 False True 10 900 1) (- 2147483648) 1 2 0
     [Order ''T'' 2 False False 10 800 1073741824, Order ''T'' 3 False False 10 801 1073741824] 1 h
     = ([Order ''T'' 2 False False 10 800 1073741824, Order ''T'' 3 False False 10 801 1073741824], 1,
        h @ [\<lparr>buyID = 1, sellID = 2, fillAmount = 0\<rparr>, \<lparr>buyID = 1, sellID = 3, fillAmount = 0\<rparr>], True)"
  by (simp add: fillPriceLevel.simps Let_def getAmount_def setAmount_def Order_def int32_def
      loopBook_share [unfolded getAmount_def] getID_def ProcessedOrder_def)

lemma loopBook_levels:
  "processPriceLevels pastEnd (Order ''T'' 1 False True 10 900 1)
     [Order ''T'' 2 False False 10 800 1073741824, Order ''T'' 3 False False 10 801 1073741824] 0 1 h True
     = ([Order ''T'' 2 False False 10 800 1073741824, Order ''T'' 3 False False 10 801 1073741824], 1,
        h @ [\<lparr>buyID = 1, sellID = 2, fillAmount = 0\<rparr>, \<lparr>buyID = 1, sellID = 3, fillAmount = 0\<rparr>])"
  by (simp add: processPriceLevels.simps [of _ _ _ 0] processPriceLevels.simps [of _ _ _ 2]
      loopBook_next loopBook_total loopBook_fill Let_def)


lemma matchOrdersProRata_loopBook:
  "matchOrdersProRata pastEnd book = Some book' \<Longrightarrow>
   m_buyOrders book = m_buyOrders loopBook \<Longrightarrow> m_sellOrders book = m_sellOrders loopBook \<Longrightarrow> False"
proof (induction rule: matchOrdersProRata.raw_induct [rotated, consumes 1, case_names step])
  case (step loop pastEnd book book')
  let ?b = "Order ''T'' 1 False True 10 900 1"
  let ?s1 = "Order ''T'' 2 False False 10 800 1073741824"
  let ?s2 = "Order ''T'' 3 False False 10 801 1073741824"
  from step.prems have buys: "m_buyOrders book = [?b]" and sells: "m_sellOrders book = [?s1, ?s2]"
    by (simp_all add: loopBook_queues)
  have drain: "drainMatching ?b [?s1, ?s2] [] = Some ([?s1, ?s2], [])"
    by (simp add: getPrice_def Order_def)
  have price: "\<not> getPrice ?b < getPrice ?s1"
    by (simp add: getPrice_def Order_def)
  have amount: "getAmount ?b = 1"
    by (simp add: getAmount_def Order_def)
  have pushb: "pq_push prioritizeMax (setAmount 1 ?b) [] = [?b]"
    by (simp add: setAmount_def Order_def)
  have readd: "reAddSells [?s1, ?s2] [] = [?s1, ?s2]"
    by (simp add: getAmount_def Order_def prioritizeMin_def getPrice_def getTime_def)
  define book1 where "book1 = book\<lparr>m_buyOrders := [?b], m_sellOrders := [?s1, ?s2],
      m_orderHistory := m_orderHistory book @
        [\<lparr>buyID = 1, sellID = 2, fillAmount = 0\<rparr>, \<lparr>buyID = 1, sellID = 3, fillAmount = 0\<rparr>]\<rparr>"
  from step.hyps have "loop pastEnd book1 = Some book'"
    unfolding buys sells
    by (simp add: price drain amount loopBook_levels pushb readd book1_def
        del: drainMatching.simps reAddSells.simps pq_push.simps)
  moreover have "m_buyOrders book1 = m_buyOrders loopBook"
    by (simp add: book1_def loopBook_queues)
  moreover have "m_sellOrders book1 = m_sellOrders loopBook"
    by (simp add: book1_def loopBook_queues)
  ultimately show ?case by (rule step.IH)
qed

lemma matchOrdersProRata_loops:
  "positiveBook loopBook \<and> intBook loopBook \<and> matchOrdersProRata pastEnd loopBook = None"
proof -
  have "positiveBook loopBook" "intBook loopBook" by code_simp+
  moreover have "matchOrdersProRata pastEnd loopBook = None"
  proof (cases "matchOrdersProRata pastEnd loopBook")
    case None
    then show ?thesis .
  next
    case (Some book')
    from matchOrdersProRata_loopBook [OF Some refl refl] show ?thesis ..
  qed
  ultimately show ?thesis by simp
qed

section \<open>Positive quantities\<close>

text \<open>
  C8, as the code has it, on a book whose resident orders all have a positive quantity.
  \<open>matchOrdersFIFO\<close> leaves only orders with a positive quantity in the queues (none with
  quantity 0), the quantities being values of the type \<open>int\<close>. So does every pass of
  \<open>matchOrdersProRata\<close> that ends, and on a safe book the pass does end (on \<open>loopBook\<close>
  it does not). So does \<open>printOrderbookContents\<close>; \<open>addOrder\<close> keeps the invariant when
  the new order has a positive quantity.
\<close>

theorem positive_quantities_preserved:
  assumes "positiveBook book"
  shows "(intBook book \<longrightarrow> positiveBook (matchOrdersFIFO book)) \<and>
         (\<forall>book'. matchOrdersProRata pastEnd book = Some book' \<longrightarrow> positiveBook book') \<and>
         (safeBook book \<longrightarrow>
            (\<exists>book'. matchOrdersProRata pastEnd book = Some book' \<and> positiveBook book')) \<and>
         positiveBook (fst (printOrderbookContents book)) \<and>
         (0 < getAmount newOrder \<longrightarrow> positiveBook (addOrder newOrder book))"
proof -
  have "positiveBook (matchOrdersFIFO book)" if "intBook book"
    using matchOrdersFIFO_invariant [OF assms that] by blast
  moreover have part: "positiveBook book'" if "matchOrdersProRata pastEnd book = Some book'" for book'
    using that assms by (rule matchOrdersProRata_positive)
  moreover have "\<exists>book'. matchOrdersProRata pastEnd book = Some book' \<and> positiveBook book'"
    if "safeBook book"
    using matchOrdersProRata_returns [OF that, of pastEnd] part by blast
  moreover have "positiveBook (fst (printOrderbookContents book))"
    by (simp add: printOrderbookContents_eq positiveBook_def)
  moreover have "positiveBook (addOrder newOrder book)" if "0 < getAmount newOrder"
    using that assms by (auto simp: positiveBook_def addOrder_def set_pq_push)
  ultimately show ?thesis by blast
qed

theorem positive_quantities_preserved_witness:
  "positiveBook scenarioD \<and> intBook scenarioD \<and> safeBook scenarioD \<and>
   matchOrdersProRata staleOrder scenarioD = Some scenarioD_after \<and>
   positiveBook scenarioD_after \<and> positiveBook (matchOrdersFIFO scenarioD) \<and>
   0 < getAmount (Order ''T'' 4 False True 10 905 1) \<and>
   positiveBook (addOrder (Order ''T'' 4 False True 10 905 1) scenarioD)"
proof -
  have "0 < getAmount (Order ''T'' 4 False True 10 905 1)"
    by (simp add: getAmount_def Order_def)
  with positive_quantities_preserved [OF scenarioD_positive, of staleOrder "Order ''T'' 4 False True 10 905 1"]
    scenarioD_positive scenarioD_int scenarioD_safe scenarioD_run
  show ?thesis by simp
qed

text \<open>
  The claim C8 itself fails for \<open>addOrder\<close>: the empty book satisfies the invariant, and
  the book with an admitted order of quantity 0 does not.
\<close>

theorem positive_quantities_counterexample:
  "positiveBook (Orderbook ''T'') \<and>
   \<not> positiveBook (addOrder (Order ''T'' 1 False True 10 900 0) (Orderbook ''T'')) \<and>
   getAmount (hd (m_buyOrders (addOrder (Order ''T'' 1 False True 10 900 0) (Orderbook ''T'')))) = 0"
  by (simp add: positiveBook_def addOrder_def checkIsBuy_def getAmount_def Order_def Orderbook_def)

section \<open>Price-time priority in every reachable book\<close>

lemma orderedBook_addOrder: "orderedBook book \<Longrightarrow> orderedBook (addOrder newOrder book)"
  unfolding orderedBook_def addOrder_def
  using sorted_pq_push [of prioritizeMax, OF prioritizeMax_asym prioritizeMax_trans]
    sorted_pq_push [of prioritizeMin, OF prioritizeMin_asym prioritizeMin_trans]
  by simp

lemma orderedBook_empty: "orderedBook (Orderbook ticker)"
  by (simp add: orderedBook_def Orderbook_def)

lemma sorted_push_buy:
  "sorted_wrt (\<lambda>a b. \<not> prioritizeMax a b) q \<Longrightarrow>
   sorted_wrt (\<lambda>a b. \<not> prioritizeMax a b) (pq_push prioritizeMax x q)"
  by (rule sorted_pq_push [OF prioritizeMax_asym prioritizeMax_trans])

lemma sorted_push_sell:
  "sorted_wrt (\<lambda>a b. \<not> prioritizeMin a b) q \<Longrightarrow>
   sorted_wrt (\<lambda>a b. \<not> prioritizeMin a b) (pq_push prioritizeMin x q)"
  by (rule sorted_pq_push [OF prioritizeMin_asym prioritizeMin_trans])

lemma orderedBook_fifoTrade:
  "orderedBook book \<Longrightarrow> orderedBook (fifoTrade bestBuy bestSell book)"
  by (simp add: fifoTrade_def Let_def orderedBook_def sorted_push_buy sorted_push_sell)

lemma orderedBook_matchOrdersFIFO: "orderedBook book \<Longrightarrow> orderedBook (matchOrdersFIFO book)"
proof (induction book rule: matchOrdersFIFO.induct)
  case (1 book)
  show ?case
  proof (cases "m_buyOrders book")
    case Nil
    with "1.prems" show ?thesis by (subst matchOrdersFIFO.simps) simp
  next
    case buys: (Cons bestBuy bs)
    show ?thesis
    proof (cases "m_sellOrders book")
      case Nil
      with buys "1.prems" show ?thesis by (subst matchOrdersFIFO.simps) simp
    next
      case sells: (Cons bestSell ss)
      show ?thesis
      proof (cases "getPrice bestBuy \<ge> getPrice bestSell")
        case True
        from "1.prems" buys sells
        have "orderedBook (book\<lparr>m_buyOrders := bs, m_sellOrders := ss\<rparr>)"
          by (simp add: orderedBook_def)
        then have "orderedBook (fifoTrade bestBuy bestSell (book\<lparr>m_buyOrders := bs, m_sellOrders := ss\<rparr>))"
          by (rule orderedBook_fifoTrade)
        then have "orderedBook (matchOrdersFIFO
            (fifoTrade bestBuy bestSell (book\<lparr>m_buyOrders := bs, m_sellOrders := ss\<rparr>)))"
          by (rule "1.IH" [OF buys sells True])
        with buys sells True show ?thesis
          by (subst matchOrdersFIFO.simps) simp
      next
        case False
        from "1.prems" buys sells
        have "orderedBook (book\<lparr>m_buyOrders := pq_push prioritizeMax bestBuy bs,
                m_sellOrders := pq_push prioritizeMin bestSell ss\<rparr>)"
          by (simp add: orderedBook_def sorted_push_buy sorted_push_sell)
        with buys sells False show ?thesis
          by (subst matchOrdersFIFO.simps) simp
      qed
    qed
  qed
qed

lemma sorted_reAddSells:
  "sorted_wrt (\<lambda>a b. \<not> prioritizeMin a b) sells \<Longrightarrow>
   sorted_wrt (\<lambda>a b. \<not> prioritizeMin a b) (reAddSells ms sells)"
  by (induction ms arbitrary: sells) (simp_all add: sorted_push_sell)

lemma orderedBook_matchOrdersProRata:
  "matchOrdersProRata pastEnd book = Some book' \<Longrightarrow> orderedBook book \<Longrightarrow> orderedBook book'"
proof (induction rule: matchOrdersProRata.raw_induct [rotated, consumes 1, case_names step])
  case (step loop pastEnd book book')
  show ?case
  proof (cases "m_buyOrders book")
    case Nil
    with step.hyps step.prems show ?thesis by simp
  next
    case buys: (Cons bestBuy bs)
    show ?thesis
    proof (cases "m_sellOrders book")
      case Nil
      with buys step.hyps step.prems show ?thesis by simp
    next
      case sells: (Cons topSell others)
      show ?thesis
      proof (cases "getPrice bestBuy < getPrice topSell")
        case True
        with buys sells step.hyps step.prems show ?thesis by simp
      next
        case False
        with buys sells step.hyps
        obtain ms rest where drain: "drainMatching bestBuy (m_sellOrders book) [] = Some (ms, rest)"
          by (cases "drainMatching bestBuy (m_sellOrders book) []") auto
        obtain ms' B' h' where levels:
          "processPriceLevels pastEnd bestBuy ms 0 (getAmount bestBuy) (m_orderHistory book) True
             = (ms', B', h')"
          by (cases "processPriceLevels pastEnd bestBuy ms 0 (getAmount bestBuy) (m_orderHistory book) True")
             auto
        define book1 where "book1 = book\<lparr>m_buyOrders :=
                       (if B' > 0 then pq_push prioritizeMax (setAmount B' bestBuy) bs else bs),
                     m_sellOrders := reAddSells ms' rest, m_orderHistory := h'\<rparr>"
        from False buys sells drain levels step.hyps have run: "loop pastEnd book1 = Some book'"
          by (simp add: book1_def)
        from drain have "m_sellOrders book = ms @ rest"
          using drainMatching_splits by fastforce
        with step.prems have "sorted_wrt (\<lambda>a b. \<not> prioritizeMin a b) rest"
          by (simp add: orderedBook_def sorted_wrt_append)
        with step.prems buys have "orderedBook book1"
          by (simp add: orderedBook_def book1_def sorted_push_buy sorted_reAddSells)
        with run show ?thesis by (rule step.IH)
      qed
    qed
  qed
qed

lemma printHistoryLoop_eq: "printHistoryLoop hist out = ([], out @ hist)"
  by (induction hist arbitrary: out) auto

lemma reachable_ordered: "reachable book \<Longrightarrow> orderedBook book"
proof (induction rule: reachable.induct)
  case (start ticker)
  show ?case by (rule orderedBook_empty)
next
  case (add book newOrder)
  then show ?case by (simp add: orderedBook_addOrder)
next
  case (fifo book)
  then show ?case by (simp add: orderedBook_matchOrdersFIFO)
next
  case (proRata book pastEnd book')
  then show ?case using orderedBook_matchOrdersProRata by blast
next
  case (contents book)
  show ?case by (simp add: printOrderbookContents_eq orderedBook_def)
next
  case (history book)
  then show ?case by (simp add: printOrderHistory_def printHistoryLoop_eq orderedBook_def)
qed

text \<open>
  C7: in every book that the operations of the class can make, of two resident buy
  orders the one with the higher price comes out of the buy queue first, and at equal
  prices the one with the earlier time; of two resident sell orders the one with the lower
  price comes out of the sell queue first, and at equal prices the one with the earlier
  time. (Positions count the \<open>top()\<close>/\<open>pop()\<close> calls: position 0 is delivered first.)
\<close>

theorem price_time_priority:
  assumes "reachable book"
  shows "(\<forall>i j. i < length (m_buyOrders book) \<and> j < length (m_buyOrders book) \<and>
            (getPrice (m_buyOrders book ! i) > getPrice (m_buyOrders book ! j) \<or>
             getPrice (m_buyOrders book ! i) = getPrice (m_buyOrders book ! j) \<and>
             getTime (m_buyOrders book ! i) < getTime (m_buyOrders book ! j))
            \<longrightarrow> i < j) \<and>
         (\<forall>i j. i < length (m_sellOrders book) \<and> j < length (m_sellOrders book) \<and>
            (getPrice (m_sellOrders book ! i) < getPrice (m_sellOrders book ! j) \<or>
             getPrice (m_sellOrders book ! i) = getPrice (m_sellOrders book ! j) \<and>
             getTime (m_sellOrders book ! i) < getTime (m_sellOrders book ! j))
            \<longrightarrow> i < j)"
proof -
  have ob: "orderedBook book"
    using assms by (rule reachable_ordered)
  have buys: "i < j" if "i < length (m_buyOrders book)" "j < length (m_buyOrders book)"
    "getPrice (m_buyOrders book ! i) > getPrice (m_buyOrders book ! j) \<or>
     getPrice (m_buyOrders book ! i) = getPrice (m_buyOrders book ! j) \<and>
     getTime (m_buyOrders book ! i) < getTime (m_buyOrders book ! j)" for i j
  proof (rule ccontr)
    assume "\<not> i < j"
    with that(3) have "j < i" by (cases "i = j") auto
    with ob that(1) have "\<not> prioritizeMax (m_buyOrders book ! j) (m_buyOrders book ! i)"
      by (simp add: orderedBook_def sorted_wrt_iff_nth_less)
    with that(3) show False by (auto simp: prioritizeMax_def split: if_splits)
  qed
  have sells: "i < j" if "i < length (m_sellOrders book)" "j < length (m_sellOrders book)"
    "getPrice (m_sellOrders book ! i) < getPrice (m_sellOrders book ! j) \<or>
     getPrice (m_sellOrders book ! i) = getPrice (m_sellOrders book ! j) \<and>
     getTime (m_sellOrders book ! i) < getTime (m_sellOrders book ! j)" for i j
  proof (rule ccontr)
    assume "\<not> i < j"
    with that(3) have "j < i" by (cases "i = j") auto
    with ob that(1) have "\<not> prioritizeMin (m_sellOrders book ! j) (m_sellOrders book ! i)"
      by (simp add: orderedBook_def sorted_wrt_iff_nth_less)
    with that(3) show False by (auto simp: prioritizeMin_def split: if_splits)
  qed
  from buys sells show ?thesis by blast
qed

theorem price_time_priority_witness:
  "reachable priorityBook \<and>
   m_buyOrders priorityBook =
     [Order ''T'' 2 False True 11 905 5, Order ''T'' 3 False True 10 800 5,
      Order ''T'' 1 False True 10 900 5] \<and>
   m_sellOrders priorityBook =
     [Order ''T'' 5 False False 12 800 5, Order ''T'' 4 False False 12 900 5] \<and>
   getPrice (m_buyOrders priorityBook ! 0) > getPrice (m_buyOrders priorityBook ! 1) \<and>
   getPrice (m_buyOrders priorityBook ! 1) = getPrice (m_buyOrders priorityBook ! 2) \<and>
   getTime (m_buyOrders priorityBook ! 1) < getTime (m_buyOrders priorityBook ! 2) \<and>
   getPrice (m_sellOrders priorityBook ! 0) = getPrice (m_sellOrders priorityBook ! 1) \<and>
   getTime (m_sellOrders priorityBook ! 0) < getTime (m_sellOrders priorityBook ! 1)"
proof -
  have r: "reachable priorityBook"
    by (simp add: priorityBook_def reachable.start reachable.add)
  have b: "m_buyOrders priorityBook =
     [Order ''T'' 2 False True 11 905 5, Order ''T'' 3 False True 10 800 5,
      Order ''T'' 1 False True 10 900 5]"
    by (simp add: priorityBook_def addOrder_def checkIsBuy_def Order_def Orderbook_def
        prioritizeMax_def prioritizeMin_def getPrice_def getTime_def)
  have s: "m_sellOrders priorityBook =
     [Order ''T'' 5 False False 12 800 5, Order ''T'' 4 False False 12 900 5]"
    by (simp add: priorityBook_def addOrder_def checkIsBuy_def Order_def Orderbook_def
        prioritizeMax_def prioritizeMin_def getPrice_def getTime_def)
  from price_time_priority [OF r] r b s show ?thesis
    by (simp add: getPrice_def getTime_def Order_def)
qed

end
